theory Spec2Isabelle
  imports Main "HOL-Library.Word" "HOL-Library.Monad_Syntax"
begin

unbundle bit_operations_syntax

section \<open>Basic types and build configuration\<close>

text \<open>
  \<^verbatim>\<open>NodeID\<close> is a 32-bit unsigned integer that the program only uses as a vector index
  and compares for equality, so it is a \<open>nat\<close> here. Distances are 32-bit and path counts
  16-bit unsigned integers whose arithmetic wraps around, so they are words.
\<close>

type_synonym NodeID = nat
type_synonym distance_t = "32 word"
type_synonym u16 = "16 word"
type_synonym u64 = "64 word"

text \<open>
  The preprocessor switches that \<^verbatim>\<open>road_network.cpp\<close> tests with \<^verbatim>\<open>#ifdef\<close>. They are
  set in the header \<^verbatim>\<open>road_network.h\<close>, so they are parameters of the model.
\<close>

record build_config =
  NO_SHORTCUTS :: bool
  PRUNING :: bool
  NDEBUG :: bool

text \<open>
  Modelled from the spec: the constant \<^verbatim>\<open>infinity\<close> is declared in \<^verbatim>\<open>road_network.h\<close>;
  the data model gives the sentinel as \<^verbatim>\<open>UINT32_MAX\<close>.
\<close>

definition infinity :: distance_t where
  "infinity = 0xFFFFFFFF"

definition NO_NODE :: NodeID where
  "NO_NODE = 0"

definition MAX_CUT_LEVEL :: nat where
  "MAX_CUT_LEVEL = 58"

text \<open>Reading a vector element; \<open>None\<close> stands for the out-of-range read.\<close>

definition nth_opt :: "'a list \<Rightarrow> nat \<Rightarrow> 'a option" where
  "nth_opt xs i = (if i < length xs then Some (xs ! i) else None)"

definition get_offset :: "u16 list \<Rightarrow> nat \<Rightarrow> u16 option" where
  "get_offset di cut_level = (if cut_level = 0 then Some 0 else nth_opt di (cut_level - 1))"

section \<open>Partition bitvectors (namespace PBV)\<close>

text \<open>\<^verbatim>\<open>PBV::from\<close>; the shifts are only defined for a length of at most 58.\<close>

definition PBV_from :: "u64 \<Rightarrow> nat \<Rightarrow> u64 option" where
  "PBV_from bits len =
     (if len = 0 then Some 0
      else if len \<le> 58 then Some (drop_bit (58 - len) (push_bit (64 - len) bits) OR word_of_nat len)
      else None)"

definition PBV_partition :: "u64 \<Rightarrow> u64" where
  "PBV_partition bv = drop_bit 6 bv"

definition PBV_cut_level :: "u64 \<Rightarrow> nat" where
  "PBV_cut_level bv = unat (bv AND 63)"

text \<open>\<^verbatim>\<open>__builtin_ctzll\<close>: the number of trailing zero bits of a 64-bit value.\<close>

definition ctzll :: "u64 \<Rightarrow> nat" where
  "ctzll x = length (takeWhile (\<lambda>i. \<not> bit x i) [0..<64])"

definition lca_level :: "u64 \<Rightarrow> u64 \<Rightarrow> nat" where
  "lca_level bv1 bv2 =
     (let l = min (PBV_cut_level bv1) (PBV_cut_level bv2);
          p1 = PBV_partition bv1;
          p2 = PBV_partition bv2
      in if p1 \<noteq> p2
         then (let diff_level = ctzll (p1 XOR p2) in if diff_level < l then diff_level else l)
         else l)"

section \<open>FlatCutIndex: the packed label block\<close>

text \<open>
  A \<^verbatim>\<open>FlatCutIndex\<close> is a pointer \<^verbatim>\<open>data\<close> to one heap block holding the partition
  bitvector, the \<^verbatim>\<open>dist_index\<close> array, the distances and the path counts. The block is
  modelled by its four parts (the byte offsets inside the block are not modelled); the
  pointer is an address into an explicit store: \<open>0\<close> is \<^verbatim>\<open>nullptr\<close>, and address
  \<open>p > 0\<close> is the block at position \<open>p - 1\<close> of the store.
\<close>

record FlatData =
  partition_bitvector :: u64
  dist_index :: "u16 list"
  distances :: "distance_t list"
  paths :: "u16 list"

type_synonym FlatCutIndex = nat

record ContractionLabel =
  cut_index :: FlatCutIndex
  distance_offset :: distance_t
  parent :: NodeID

record ContractionIndex =
  labels :: "ContractionLabel list"
  store :: "FlatData list"

definition deref :: "FlatData list \<Rightarrow> FlatCutIndex \<Rightarrow> FlatData option" where
  "deref st p = (if p = 0 then None else nth_opt st (p - 1))"

subsection \<open>Label queries on two blocks\<close>

text \<open>
  The loop \<^verbatim>\<open>while (a_ptr != a_end)\<close> of \<^verbatim>\<open>get_cut_level_distance\<close> and of
  \<^verbatim>\<open>get_distance(FlatCutIndex, FlatCutIndex)\<close>. A pointer into an array is the rest of the
  array from that position on; the first argument is the number of iterations left.
\<close>

fun min_dist_loop :: "nat \<Rightarrow> distance_t list \<Rightarrow> distance_t list \<Rightarrow> distance_t \<Rightarrow> distance_t option" where
  "min_dist_loop 0 a_ptr b_ptr min_dist = Some min_dist"
| "min_dist_loop (Suc n) (x # a_ptr) (y # b_ptr) min_dist =
     (let dist = x + y
      in min_dist_loop n a_ptr b_ptr (if dist < min_dist then dist else min_dist))"
| "min_dist_loop (Suc n) _ _ min_dist = None"

definition get_cut_level_distance :: "FlatData \<Rightarrow> FlatData \<Rightarrow> nat \<Rightarrow> distance_t option" where
  "get_cut_level_distance a b cut_level = do {
     a_offset \<leftarrow> get_offset (dist_index a) cut_level;
     b_offset \<leftarrow> get_offset (dist_index b) cut_level;
     a_di \<leftarrow> nth_opt (dist_index a) cut_level;
     b_di \<leftarrow> nth_opt (dist_index b) cut_level;
     let n = min (uint a_di - uint a_offset) (uint b_di - uint b_offset);
     if n < 0 then None
     else min_dist_loop (nat n) (drop (unat a_offset) (distances a))
            (drop (unat b_offset) (distances b)) infinity
   }"

text \<open>The loop \<^verbatim>\<open>for (cl = 0; cl <= cut_level; cl++)\<close> of the PRUNING variant.\<close>

fun pruning_loop :: "FlatData \<Rightarrow> FlatData \<Rightarrow> nat list \<Rightarrow> distance_t \<Rightarrow> distance_t option" where
  "pruning_loop a b [] min_dist = Some min_dist"
| "pruning_loop a b (cl # cls) min_dist = do {
     d \<leftarrow> get_cut_level_distance a b cl;
     pruning_loop a b cls (min min_dist d)
   }"

definition get_distance_flat :: "build_config \<Rightarrow> FlatData \<Rightarrow> FlatData \<Rightarrow> distance_t option" where
  "get_distance_flat cfg a b =
     (let cut_level = lca_level (partition_bitvector a) (partition_bitvector b)
      in if NO_SHORTCUTS cfg
         then (if PRUNING cfg
               then pruning_loop a b [0..<Suc cut_level] infinity
               else do {
                 a_di \<leftarrow> nth_opt (dist_index a) cut_level;
                 b_di \<leftarrow> nth_opt (dist_index b) cut_level;
                 min_dist_loop (unat (min a_di b_di)) (distances a) (distances b) infinity
               })
         else get_cut_level_distance a b cut_level)"

text \<open>
  The loop of \<^verbatim>\<open>get_paths\<close>, over four pointers. The product of two path counts and the
  running sum are stored in a \<^verbatim>\<open>uint16_t\<close>, that is taken modulo \<open>2 ^ 16\<close>.
\<close>

fun paths_loop :: "nat \<Rightarrow> distance_t list \<Rightarrow> distance_t list \<Rightarrow> u16 list \<Rightarrow> u16 list
    \<Rightarrow> distance_t \<Rightarrow> u16 \<Rightarrow> u16 option" where
  "paths_loop 0 a_ptr b_ptr x_ptr y_ptr min_dist spc = Some spc"
| "paths_loop (Suc n) (da # a_ptr) (db # b_ptr) (x # x_ptr) (y # y_ptr) min_dist spc =
     (let d = da + db; c = x * y
      in if d < min_dist then paths_loop n a_ptr b_ptr x_ptr y_ptr d c
         else if d = min_dist then paths_loop n a_ptr b_ptr x_ptr y_ptr min_dist (spc + c)
         else paths_loop n a_ptr b_ptr x_ptr y_ptr min_dist spc)"
| "paths_loop (Suc n) _ _ _ _ min_dist spc = None"

definition get_paths :: "FlatData \<Rightarrow> FlatData \<Rightarrow> u16 option" where
  "get_paths a b =
     (let cut_level = lca_level (partition_bitvector a) (partition_bitvector b)
      in do {
        a_di \<leftarrow> nth_opt (dist_index a) cut_level;
        b_di \<leftarrow> nth_opt (dist_index b) cut_level;
        paths_loop (unat (min a_di b_di)) (distances a) (distances b) (paths a) (paths b) infinity 0
      })"

subsection \<open>Queries on vertices\<close>

text \<open>
  The loop that finds the lowest common ancestor of two contracted vertices in
  \<^verbatim>\<open>ContractionIndex::get_distance\<close>. It follows \<^verbatim>\<open>parent\<close> links and need not end on
  arbitrary labels, so it is a partial function: \<open>None\<close> is no result (no return, or a
  label read outside the vector).
\<close>

partial_function (option) lca_loop ::
    "ContractionLabel list \<Rightarrow> NodeID \<Rightarrow> NodeID \<Rightarrow> ContractionLabel \<Rightarrow> ContractionLabel
     \<Rightarrow> ContractionLabel option" where
  "lca_loop ls v_anc w_anc cv_anc cw_anc =
     (if v_anc \<noteq> w_anc
      then (if distance_offset cv_anc < distance_offset cw_anc
            then do {
              cw' \<leftarrow> nth_opt ls (parent cw_anc);
              lca_loop ls v_anc (parent cw_anc) cv_anc cw'
            }
            else if distance_offset cv_anc > distance_offset cw_anc
            then do {
              cv' \<leftarrow> nth_opt ls (parent cv_anc);
              lca_loop ls (parent cv_anc) w_anc cv' cw_anc
            }
            else do {
              cv' \<leftarrow> nth_opt ls (parent cv_anc);
              cw' \<leftarrow> nth_opt ls (parent cw_anc);
              lca_loop ls (parent cv_anc) (parent cw_anc) cv' cw'
            })
      else Some cv_anc)"

text \<open>
  \<^verbatim>\<open>ContractionIndex::get_distance(NodeID, NodeID)\<close>. The assertion that both labels have
  a block is only compiled without \<^verbatim>\<open>NDEBUG\<close>; \<open>None\<close> is the failed assertion, a read
  outside a vector or through a null pointer, or no return.
\<close>

definition get_distance :: "build_config \<Rightarrow> ContractionIndex \<Rightarrow> NodeID \<Rightarrow> NodeID \<Rightarrow> distance_t option" where
  "get_distance cfg idx v w = do {
     cv \<leftarrow> nth_opt (labels idx) v;
     cw \<leftarrow> nth_opt (labels idx) w;
     if \<not> NDEBUG cfg \<and> (cut_index cv = 0 \<or> cut_index cw = 0) then None
     else if cut_index cv = cut_index cw
     then (if v = w then Some 0
           else if distance_offset cv = 0 then Some (distance_offset cw)
           else if distance_offset cw = 0 then Some (distance_offset cv)
           else if parent cv = w then Some (distance_offset cv - distance_offset cw)
           else if parent cw = v then Some (distance_offset cw - distance_offset cv)
           else do {
             cv_anc \<leftarrow> lca_loop (labels idx) v w cv cw;
             Some (distance_offset cv + distance_offset cw - 2 * distance_offset cv_anc)
           })
     else do {
       a \<leftarrow> deref (store idx) (cut_index cv);
       b \<leftarrow> deref (store idx) (cut_index cw);
       d \<leftarrow> get_distance_flat cfg a b;
       Some (distance_offset cv + distance_offset cw + d)
     }
   }"

definition get_spc :: "build_config \<Rightarrow> ContractionIndex \<Rightarrow> NodeID \<Rightarrow> NodeID \<Rightarrow> u16 option" where
  "get_spc cfg idx v w = do {
     cv \<leftarrow> nth_opt (labels idx) v;
     cw \<leftarrow> nth_opt (labels idx) w;
     if \<not> NDEBUG cfg \<and> (cut_index cv = 0 \<or> cut_index cw = 0) then None
     else if cut_index cv = cut_index cw then Some 1
     else do {
       a \<leftarrow> deref (store idx) (cut_index cv);
       b \<leftarrow> deref (store idx) (cut_index cw);
       get_paths a b
     }
   }"

section \<open>Building the ContractionIndex\<close>

record Neighbor =
  node :: NodeID
  distance :: distance_t
  path_count :: u16

text \<open>
  \<^verbatim>\<open>CutIndex\<close>, the per-vertex labels during the build. The type of \<^verbatim>\<open>cut_level\<close> is
  declared in the header; its values are at most 58, so it is a \<open>nat\<close> here.
\<close>

record CutIndex =
  ci_partition :: u64
  ci_cut_level :: nat
  ci_dist_index :: "u16 list"
  ci_distances :: "distance_t list"
  ci_paths :: "u16 list"

text \<open>\<^verbatim>\<open>CutIndex::is_consistent\<close> with \<^verbatim>\<open>partial = false\<close>.\<close>

definition is_consistent :: "CutIndex \<Rightarrow> bool" where
  "is_consistent ci \<longleftrightarrow>
     \<not> ci_cut_level ci > MAX_CUT_LEVEL
     \<and> \<not> unat (ci_partition ci) \<ge> 2 ^ ci_cut_level ci
     \<and> \<not> length (ci_dist_index ci) \<noteq> ci_cut_level ci + 1
     \<and> sorted (ci_dist_index ci)"

text \<open>The helper \<^verbatim>\<open>aligned<uint32_t>\<close>: a size in bytes rounded up to a multiple of 4.\<close>

definition aligned :: "nat \<Rightarrow> nat" where
  "aligned n = (let m = n mod 4 in if m \<noteq> 0 then n + (4 - m) else n)"

text \<open>
  The constructor \<^verbatim>\<open>FlatCutIndex(const CutIndex&)\<close>. It asserts consistency (unless
  \<^verbatim>\<open>NDEBUG\<close>), allocates one block for the bitvector and the three arrays, with a size
  computed from the sizes of the arrays, and copies the arrays to the places that the
  accessors compute from the block itself: \<^verbatim>\<open>dist_index()\<close> after the bitvector,
  \<^verbatim>\<open>distances()\<close> after \<open>cut_level + 1\<close> index entries, and \<^verbatim>\<open>paths()\<close> after
  \<^verbatim>\<open>label_count() = dist_index()[cut_level()]\<close> distances. There is no check that the sizes
  agree with these places. The copy of the path counts, the last one, stays inside the
  block exactly when the condition below holds; otherwise it writes past the block, which
  is \<open>None\<close>. The path counts overwrite the distances from position \<^verbatim>\<open>label_count()\<close> on, so
  the block holds the first \<^verbatim>\<open>label_count()\<close> distances and all path counts; a later read
  of a distance beyond them has no result here.
\<close>

definition FlatCutIndex_of :: "build_config \<Rightarrow> CutIndex \<Rightarrow> FlatData option" where
  "FlatCutIndex_of cfg ci =
     (if \<not> NDEBUG cfg \<and> \<not> is_consistent ci then None
      else do {
        bv \<leftarrow> PBV_from (ci_partition ci) (ci_cut_level ci);
        label_count \<leftarrow> nth_opt (ci_dist_index ci) (ci_cut_level ci);
        if aligned (Suc (ci_cut_level ci) * 2) + unat label_count * 4
             \<le> aligned (length (ci_dist_index ci) * 2) + length (ci_distances ci) * 4
        then Some \<lparr>partition_bitvector = bv,
                   dist_index = take (Suc (ci_cut_level ci)) (ci_dist_index ci),
                   distances = take (unat label_count) (ci_distances ci),
                   paths = ci_paths ci\<rparr>
        else None
      })"

text \<open>
  The loop \<^verbatim>\<open>while (closest[root].node != root)\<close> that walks from a contracted vertex to
  the root of its chain, adding up the distances (modulo \<open>2 ^ 32\<close>).
\<close>

partial_function (option) find_root ::
    "Neighbor list \<Rightarrow> NodeID \<Rightarrow> distance_t \<Rightarrow> (NodeID \<times> distance_t) option" where
  "find_root closest root root_dist = do {
     c \<leftarrow> nth_opt closest root;
     if node c \<noteq> root then find_root closest (node c) (root_dist + distance c)
     else Some (root, root_dist)
   }"

text \<open>
  The first loop of \<^verbatim>\<open>ContractionIndex(ci, closest)\<close>: every core vertex gets a block of
  its own. \<^verbatim>\<open>calloc\<close> is modelled by appending the block to the store, which gives a
  fresh non-null address.
\<close>

fun core_loop :: "build_config \<Rightarrow> CutIndex list \<Rightarrow> Neighbor list \<Rightarrow> NodeID list
    \<Rightarrow> ContractionIndex \<Rightarrow> ContractionIndex option" where
  "core_loop cfg ci closest [] idx = Some idx"
| "core_loop cfg ci closest (n # ns) idx = do {
     c \<leftarrow> nth_opt closest n;
     cn \<leftarrow> nth_opt ci n;
     if node c = n
     then (if \<not> NDEBUG cfg \<and> distance c \<noteq> 0 then None
           else do {
             l \<leftarrow> nth_opt (labels idx) n;
             fd \<leftarrow> FlatCutIndex_of cfg cn;
             core_loop cfg ci closest ns
               \<lparr>labels = (labels idx)[n := l\<lparr>cut_index := Suc (length (store idx))\<rparr>],
                store = store idx @ [fd]\<rparr>
           })
     else core_loop cfg ci closest ns idx
   }"

text \<open>The second loop: every contracted vertex shares the block of the root of its chain.\<close>

fun peripheral_loop :: "build_config \<Rightarrow> Neighbor list \<Rightarrow> NodeID list
    \<Rightarrow> ContractionIndex \<Rightarrow> ContractionIndex option" where
  "peripheral_loop cfg closest [] idx = Some idx"
| "peripheral_loop cfg closest (n # ns) idx = do {
     c \<leftarrow> nth_opt closest n;
     if node c \<noteq> n \<and> node c \<noteq> NO_NODE
     then (if \<not> NDEBUG cfg \<and> \<not> distance c > 0 then None
           else do {
             (root, root_dist) \<leftarrow> find_root closest (node c) (distance c);
             lr \<leftarrow> nth_opt (labels idx) root;
             if \<not> NDEBUG cfg \<and> cut_index lr = 0 then None
             else if n < length (labels idx)
             then peripheral_loop cfg closest ns
                    (idx\<lparr>labels := (labels idx)[n :=
                       \<lparr>cut_index = cut_index lr, distance_offset = root_dist, parent = node c\<rparr>]\<rparr>)
             else None
           })
     else peripheral_loop cfg closest ns idx
   }"

text \<open>
  \<^verbatim>\<open>ContractionIndex::ContractionIndex(vector<CutIndex>&, vector<Neighbor>&)\<close>. The
  labels start as default \<^verbatim>\<open>ContractionLabel\<close>s (null block, offset 0, no parent).
\<close>

definition ContractionIndex_of :: "build_config \<Rightarrow> CutIndex list \<Rightarrow> Neighbor list \<Rightarrow> ContractionIndex option" where
  "ContractionIndex_of cfg ci closest =
     (if \<not> NDEBUG cfg \<and> length ci \<noteq> length closest then None
      else do {
        idx \<leftarrow> core_loop cfg ci closest [1..<length closest]
                 \<lparr>labels = replicate (length ci) \<lparr>cut_index = 0, distance_offset = 0, parent = NO_NODE\<rparr>,
                  store = []\<rparr>;
        peripheral_loop cfg closest [1..<length closest] idx
      })"

text \<open>
  What the two loops establish for every label: either it still has the default parent
  and offset, or its parent is \<^verbatim>\<open>closest[v].node\<close> and the walk to the root from there
  has returned.
\<close>

definition chain_ok :: "Neighbor list \<Rightarrow> ContractionLabel list \<Rightarrow> bool" where
  "chain_ok closest ls \<longleftrightarrow>
     (\<forall>v < length ls.
        (parent (ls ! v) = NO_NODE \<and> distance_offset (ls ! v) = 0)
        \<or> (v < length closest \<and> parent (ls ! v) = node (closest ! v)
           \<and> find_root closest (node (closest ! v)) (distance (closest ! v)) \<noteq> None))"

section \<open>The graph store\<close>

text \<open>
  A \<^verbatim>\<open>Node\<close> of the vertex table, with the fields that loading a graph uses. The entries
  of a neighbour list are made by \<^verbatim>\<open>Neighbor(node, distance)\<close>, which does not set
  \<^verbatim>\<open>path_count\<close>; the graph algorithms never read it, and it is 0 here.
\<close>

record Node =
  nd_subgraph_id :: nat
  neighbors :: "Neighbor list"

definition NO_SUBGRAPH :: nat where
  "NO_SUBGRAPH = 0"

record Graph =
  node_data :: "Node list"
  nodes :: "NodeID list"
  subgraph_id :: nat

text \<open>
  The loop of \<^verbatim>\<open>Graph::add_edge\<close> over the neighbours of \<open>v\<close>: the first entry for \<open>w\<close>
  gets the smaller distance and the loop stops. The result tells whether an entry was found.
\<close>

fun add_edge_loop :: "Neighbor list \<Rightarrow> NodeID \<Rightarrow> distance_t \<Rightarrow> bool \<times> Neighbor list" where
  "add_edge_loop [] w d = (False, [])"
| "add_edge_loop (n # ns) w d =
     (if node n = w then (True, n\<lparr>distance := min (distance n) d\<rparr> # ns)
      else (let (exists, ns') = add_edge_loop ns w d in (exists, n # ns')))"

text \<open>
  One direction of \<^verbatim>\<open>Graph::add_edge\<close>. The three assertions are compiled without
  \<^verbatim>\<open>NDEBUG\<close> only; \<open>None\<close> is a failed assertion or an access outside \<^verbatim>\<open>node_data\<close>.
\<close>

definition add_edge_dir :: "build_config \<Rightarrow> Graph \<Rightarrow> NodeID \<Rightarrow> NodeID \<Rightarrow> distance_t \<Rightarrow> Graph option" where
  "add_edge_dir cfg g v w d =
     (if \<not> NDEBUG cfg \<and> \<not> (v < length (node_data g) \<and> w < length (node_data g) \<and> d > 0) then None
      else if \<not> v < length (node_data g) then None
      else (let nv = node_data g ! v;
                (exists, ns) = add_edge_loop (neighbors nv) w d;
                ns' = (if \<not> exists then ns @ [\<lparr>node = w, distance = d, path_count = 0\<rparr>] else ns)
            in Some (g\<lparr>node_data := (node_data g)[v := nv\<lparr>neighbors := ns'\<rparr>]\<rparr>)))"

definition add_edge :: "build_config \<Rightarrow> Graph \<Rightarrow> NodeID \<Rightarrow> NodeID \<Rightarrow> distance_t \<Rightarrow> bool \<Rightarrow> Graph option" where
  "add_edge cfg g v w d add_reverse = do {
     g' \<leftarrow> add_edge_dir cfg g v w d;
     if add_reverse then add_edge_dir cfg g' w v d else Some g'
   }"

text \<open>A sequence of calls \<^verbatim>\<open>add_edge(u, v, d, true)\<close>.\<close>

fun add_edges :: "build_config \<Rightarrow> Graph \<Rightarrow> (NodeID \<times> NodeID \<times> distance_t) list \<Rightarrow> Graph option" where
  "add_edges cfg g [] = Some g"
| "add_edges cfg g ((u, v, d) # calls) = do {
     g' \<leftarrow> add_edge cfg g u v d True;
     add_edges cfg g' calls
   }"

text \<open>
  \<^verbatim>\<open>Graph::resize\<close>: a fresh vertex table for vertices \<open>1 .. node_count\<close>, with vertex 0
  and the two extra vertices \<open>s\<close> and \<open>t\<close> outside the graph.
\<close>

definition resize :: "build_config \<Rightarrow> Graph \<Rightarrow> nat \<Rightarrow> Graph option" where
  "resize cfg g node_count =
     (if \<not> NDEBUG cfg \<and> nodes g \<noteq> [] then None
      else (let fresh = \<lparr>nd_subgraph_id = subgraph_id g, neighbors = []\<rparr>;
                out = \<lparr>nd_subgraph_id = NO_SUBGRAPH, neighbors = []\<rparr>
            in Some (g\<lparr>node_data := [out] @ replicate node_count fresh @ [out, out],
                      nodes := nodes g @ [1..<Suc node_count]\<rparr>)))"

text \<open>The weights of all calls for the pair \<open>u, v\<close>, in either direction.\<close>

definition pair_weights :: "(NodeID \<times> NodeID \<times> distance_t) list \<Rightarrow> NodeID \<Rightarrow> NodeID \<Rightarrow> distance_t set" where
  "pair_weights calls u v = {d. (u, v, d) \<in> set calls \<or> (v, u, d) \<in> set calls}"

text \<open>The entries for \<open>v\<close> in the neighbour list of \<open>u\<close>.\<close>

definition entries :: "Graph \<Rightarrow> NodeID \<Rightarrow> NodeID \<Rightarrow> Neighbor list" where
  "entries g u v = filter (\<lambda>n. node n = v) (neighbors (node_data g ! u))"

text \<open>
  The weight stored for \<open>x\<close> in a neighbour list (that of the first entry for \<open>x\<close>), and
  the invariant of the vertex table after a sequence of calls: no vertex occurs twice in
  a neighbour list, and the stored weight is the minimum over the calls for the pair.
\<close>

definition weight_of :: "Neighbor list \<Rightarrow> NodeID \<Rightarrow> distance_t option" where
  "weight_of ns = map_of (map (\<lambda>n. (node n, distance n)) ns)"

definition adjacency_ok :: "Graph \<Rightarrow> (NodeID \<times> NodeID \<times> distance_t) list \<Rightarrow> bool" where
  "adjacency_ok g calls \<longleftrightarrow>
     (\<forall>u < length (node_data g).
        distinct (map node (neighbors (node_data g ! u)))
        \<and> (\<forall>v. weight_of (neighbors (node_data g ! u)) v =
               (if pair_weights calls u v = {} then None else Some (Min (pair_weights calls u v)))))"

section \<open>The shortcut graph and label maintenance\<close>

record CHNode =
  ch_dist_index :: u16
  up_neighbors :: "Neighbor list"
  down_neighbors :: "NodeID list"

text \<open>A \<^verbatim>\<open>ContractionHierarchy\<close> is its vector \<^verbatim>\<open>nodes\<close>.\<close>

type_synonym ContractionHierarchy = "CHNode list"

text \<open>
  \<^verbatim>\<open>Graph::UpNeighbor\<close> returns the first up-neighbour of \<open>v\<close> with node \<open>w\<close>; the function
  has no \<^verbatim>\<open>return\<close> for the case that there is none, which is \<open>None\<close> here.
\<close>

definition UpNeighbor :: "ContractionHierarchy \<Rightarrow> NodeID \<Rightarrow> NodeID \<Rightarrow> Neighbor option" where
  "UpNeighbor ch v w = do {
     nv \<leftarrow> nth_opt ch v;
     find (\<lambda>n. node n = w) (up_neighbors nv)
   }"

subsection \<open>util::min_bucket_queue\<close>

record 'a min_bucket_queue =
  buckets :: "'a list list"
  min_bucket :: nat

definition mbq_init :: "'a min_bucket_queue" where
  "mbq_init = \<lparr>buckets = [], min_bucket = 0\<rparr>"

definition mbq_empty :: "'a min_bucket_queue \<Rightarrow> bool" where
  "mbq_empty q \<longleftrightarrow> min_bucket q \<ge> length (buckets q)"

definition mbq_push :: "'a \<Rightarrow> nat \<Rightarrow> 'a min_bucket_queue \<Rightarrow> 'a min_bucket_queue" where
  "mbq_push val bucket q =
     (let mb = (if mbq_empty q \<or> min_bucket q > bucket then bucket else min_bucket q);
          bs = (if length (buckets q) \<le> bucket
                then buckets q @ replicate (bucket + 1 - length (buckets q)) []
                else buckets q)
      in \<lparr>buckets = bs[bucket := bs ! bucket @ [val]], min_bucket = mb\<rparr>)"

text \<open>The loop \<^verbatim>\<open>while (min_bucket < buckets.size() && buckets[min_bucket].empty()) min_bucket++\<close>.\<close>

function skip_empty :: "'a list list \<Rightarrow> nat \<Rightarrow> nat" where
  "skip_empty bs mb = (if mb < length bs \<and> bs ! mb = [] then skip_empty bs (Suc mb) else mb)"
  by pat_completeness auto
termination
  by (relation "measure (\<lambda>(bs, mb). length bs - mb)") auto

declare skip_empty.simps [simp del]

text \<open>
  \<^verbatim>\<open>pop\<close> takes the last element of the bucket \<^verbatim>\<open>min_bucket\<close>. Its assertion is the
  condition under which \<^verbatim>\<open>back()\<close> is defined, so \<open>None\<close> stands for both.
\<close>

definition mbq_pop :: "'a min_bucket_queue \<Rightarrow> ('a \<times> 'a min_bucket_queue) option" where
  "mbq_pop q =
     (if min_bucket q < length (buckets q) \<and> buckets q ! min_bucket q \<noteq> []
      then (let top = last (buckets q ! min_bucket q);
                bs = (buckets q)[min_bucket q := butlast (buckets q ! min_bucket q)]
            in Some (top, \<lparr>buckets = bs, min_bucket = skip_empty bs (min_bucket q)\<rparr>))
      else None)"

subsection \<open>DCL_Dec: the label update after a weight decrease\<close>

record ICHSearchNode =
  ich_v :: NodeID
  ich_i :: nat
  ich_distance :: distance_t
  ich_path_count :: u16

text \<open>A changed shortcut \<open>((v, w), (distance, path_count))\<close>, as collected by \<^verbatim>\<open>GS_Dec\<close>.\<close>

type_synonym changed_edge = "(NodeID \<times> NodeID) \<times> (distance_t \<times> u16)"

text \<open>The block of the label of a vertex, as \<^verbatim>\<open>ci.get_contraction_label(v).cut_index\<close>.\<close>

definition label_block :: "ContractionIndex \<Rightarrow> NodeID \<Rightarrow> FlatData option" where
  "label_block idx v = do {
     l \<leftarrow> nth_opt (labels idx) v;
     deref (store idx) (cut_index l)
   }"

text \<open>Writing \<^verbatim>\<open>cv.distances()[i] = d; cv.paths()[i] = c\<close> through the pointer of vertex \<open>v\<close>.\<close>

definition set_label :: "ContractionIndex \<Rightarrow> NodeID \<Rightarrow> nat \<Rightarrow> distance_t \<Rightarrow> u16 \<Rightarrow> ContractionIndex option" where
  "set_label idx v i d c = do {
     l \<leftarrow> nth_opt (labels idx) v;
     b \<leftarrow> deref (store idx) (cut_index l);
     if i < length (distances b) \<and> i < length (paths b)
     then Some (idx\<lparr>store := (store idx)[cut_index l - 1 :=
                  b\<lparr>distances := (distances b)[i := d], paths := (paths b)[i := c]\<rparr>]\<rparr>)
     else None
   }"

text \<open>
  The inner loop \<^verbatim>\<open>for (i = 0; i <= ch.nodes[w].dist_index; i++)\<close> of the first phase;
  the list holds the values of \<open>i\<close> still to do.
\<close>

fun dec_seed_loop :: "ContractionHierarchy \<Rightarrow> FlatData \<Rightarrow> FlatData \<Rightarrow> NodeID \<Rightarrow> distance_t \<Rightarrow> u16
    \<Rightarrow> nat list \<Rightarrow> ICHSearchNode min_bucket_queue \<Rightarrow> ICHSearchNode min_bucket_queue option" where
  "dec_seed_loop ch a b v d c [] q = Some q"
| "dec_seed_loop ch a b v d c (i # is) q = do {
     bd \<leftarrow> nth_opt (distances b) i;
     ad \<leftarrow> nth_opt (distances a) i;
     let dist = d + bd;
     if ad \<ge> dist
     then do {
       bp \<leftarrow> nth_opt (paths b) i;
       nv \<leftarrow> nth_opt ch v;
       dec_seed_loop ch a b v d c is
         (mbq_push \<lparr>ich_v = v, ich_i = i, ich_distance = dist, ich_path_count = c * bp\<rparr>
            (unat (ch_dist_index nv)) q)
     }
     else dec_seed_loop ch a b v d c is q
   }"

text \<open>The first phase of \<^verbatim>\<open>DCL_Dec\<close>: the loop over the changed shortcuts.\<close>

fun dec_seed :: "ContractionHierarchy \<Rightarrow> ContractionIndex \<Rightarrow> changed_edge list
    \<Rightarrow> ICHSearchNode min_bucket_queue \<Rightarrow> ICHSearchNode min_bucket_queue option" where
  "dec_seed ch idx [] q = Some q"
| "dec_seed ch idx (((v, w), (d, c)) # C) q = do {
     a \<leftarrow> label_block idx v;
     nw \<leftarrow> nth_opt ch w;
     ad \<leftarrow> nth_opt (distances a) (unat (ch_dist_index nw));
     if d \<le> ad
     then do {
       b \<leftarrow> label_block idx w;
       q' \<leftarrow> dec_seed_loop ch a b v d c [0..<Suc (unat (ch_dist_index nw))] q;
       dec_seed ch idx C q'
     }
     else dec_seed ch idx C q
   }"

text \<open>The loop over the down-neighbours of the dequeued vertex in the second phase.\<close>

fun dec_down_loop :: "ContractionHierarchy \<Rightarrow> ContractionIndex \<Rightarrow> ICHSearchNode \<Rightarrow> NodeID list
    \<Rightarrow> ICHSearchNode min_bucket_queue \<Rightarrow> ICHSearchNode min_bucket_queue option" where
  "dec_down_loop ch idx next [] q = Some q"
| "dec_down_loop ch idx next (u # us) q = do {
     x \<leftarrow> UpNeighbor ch u (ich_v next);
     let dist = distance x + ich_distance next;
     cu \<leftarrow> label_block idx u;
     cud \<leftarrow> nth_opt (distances cu) (ich_i next);
     if cud \<ge> dist
     then do {
       nu \<leftarrow> nth_opt ch u;
       dec_down_loop ch idx next us
         (mbq_push \<lparr>ich_v = u, ich_i = ich_i next, ich_distance = dist,
                    ich_path_count = path_count x * ich_path_count next\<rparr>
            (unat (ch_dist_index nu)) q)
     }
     else dec_down_loop ch idx next us q
   }"

text \<open>
  The state of the second phase: the queue, the index, and a record of the bucket key of
  every dequeue so far (the value of \<^verbatim>\<open>min_bucket\<close> when \<^verbatim>\<open>pop\<close> is called). The record is
  not part of the program; it is what the claim about the order of dequeues speaks of.
\<close>

record dec_state =
  dec_queue :: "ICHSearchNode min_bucket_queue"
  dec_index :: ContractionIndex
  dec_keys :: "nat list"

text \<open>One iteration of \<^verbatim>\<open>while (!q.empty())\<close> in \<^verbatim>\<open>DCL_Dec\<close>.\<close>

definition dec_step :: "ContractionHierarchy \<Rightarrow> dec_state \<Rightarrow> dec_state option" where
  "dec_step ch st = do {
     (next, q) \<leftarrow> mbq_pop (dec_queue st);
     let keys = dec_keys st @ [min_bucket (dec_queue st)];
     let idx = dec_index st;
     cv \<leftarrow> label_block idx (ich_v next);
     cvd \<leftarrow> nth_opt (distances cv) (ich_i next);
     if cvd > ich_distance next \<or> cvd = ich_distance next
     then do {
       idx' \<leftarrow> (if cvd > ich_distance next
                then set_label idx (ich_v next) (ich_i next) (ich_distance next) (ich_path_count next)
                else do {
                  cvp \<leftarrow> nth_opt (paths cv) (ich_i next);
                  set_label idx (ich_v next) (ich_i next) cvd (cvp + ich_path_count next)
                });
       nv \<leftarrow> nth_opt ch (ich_v next);
       q' \<leftarrow> dec_down_loop ch idx' next (down_neighbors nv) q;
       Some \<lparr>dec_queue = q', dec_index = idx', dec_keys = keys\<rparr>
     }
     else Some \<lparr>dec_queue = q, dec_index = idx, dec_keys = keys\<rparr>
   }"

text \<open>
  The loop itself, for at most \<open>fuel\<close> iterations: it need not end when the
  down-neighbour lists are cyclic, and the order of dequeues is a property of every
  finite part of a run.
\<close>

fun dec_loop :: "nat \<Rightarrow> ContractionHierarchy \<Rightarrow> dec_state \<Rightarrow> dec_state option" where
  "dec_loop 0 ch st = Some st"
| "dec_loop (Suc fuel) ch st =
     (if mbq_empty (dec_queue st) then Some st
      else do { st' \<leftarrow> dec_step ch st; dec_loop fuel ch st' })"

text \<open>
  Lines 3074 to 3115 of \<^verbatim>\<open>DCL_Dec\<close>, after \<^verbatim>\<open>GS_Dec\<close> has returned the changed shortcuts
  \<open>C\<close>: both phases, run for at most \<open>fuel\<close> dequeues.
\<close>

definition DCL_Dec_labels :: "nat \<Rightarrow> ContractionHierarchy \<Rightarrow> ContractionIndex \<Rightarrow> changed_edge list
    \<Rightarrow> dec_state option" where
  "DCL_Dec_labels fuel ch idx C = do {
     q \<leftarrow> dec_seed ch idx C mbq_init;
     dec_loop fuel ch \<lparr>dec_queue = q, dec_index = idx, dec_keys = []\<rparr>
   }"

text \<open>
  The order of the shortcut graph seen from above: every down-neighbour of a vertex has a
  larger \<^verbatim>\<open>dist_index\<close> than the vertex.
\<close>

definition down_order :: "ContractionHierarchy \<Rightarrow> bool" where
  "down_order ch \<longleftrightarrow>
     (\<forall>v < length ch. \<forall>u \<in> set (down_neighbors (ch ! v)). u < length ch \<longrightarrow>
        ch_dist_index (ch ! v) < ch_dist_index (ch ! u))"

text \<open>
  Invariants of the second phase: below \<^verbatim>\<open>min_bucket\<close> every bucket is empty and the
  bucket \<^verbatim>\<open>min_bucket\<close> is not; every queued entry sits in the bucket of the
  \<^verbatim>\<open>dist_index\<close> of its vertex; no recorded key exceeds the index of a non-empty bucket.
\<close>

definition mbq_ok :: "'a min_bucket_queue \<Rightarrow> bool" where
  "mbq_ok q \<longleftrightarrow>
     (\<forall>b < length (buckets q). b < min_bucket q \<longrightarrow> buckets q ! b = [])
     \<and> (min_bucket q < length (buckets q) \<longrightarrow> buckets q ! min_bucket q \<noteq> [])"

definition keys_ok :: "ContractionHierarchy \<Rightarrow> ICHSearchNode min_bucket_queue \<Rightarrow> bool" where
  "keys_ok ch q \<longleftrightarrow>
     (\<forall>b < length (buckets q). \<forall>x \<in> set (buckets q ! b).
        ich_v x < length ch \<and> unat (ch_dist_index (ch ! ich_v x)) = b)"

definition keys_below :: "nat list \<Rightarrow> 'a min_bucket_queue \<Rightarrow> bool" where
  "keys_below keys q \<longleftrightarrow>
     (\<forall>k \<in> set keys. \<forall>b < length (buckets q). buckets q ! b \<noteq> [] \<longrightarrow> k \<le> b)"

definition dec_inv :: "ContractionHierarchy \<Rightarrow> dec_state \<Rightarrow> bool" where
  "dec_inv ch st \<longleftrightarrow>
     mbq_ok (dec_queue st) \<and> keys_ok ch (dec_queue st) \<and> sorted (dec_keys st)
     \<and> keys_below (dec_keys st) (dec_queue st)"

section \<open>Reading a graph\<close>

subsection \<open>The input stream\<close>

text \<open>
  \<^verbatim>\<open>read_graph\<close> reads from a \<^verbatim>\<open>std::istream\<close>. The stream is modelled by the characters
  not yet read and its two state bits; the operations follow the C++ standard library:
  a formatted extraction first checks that the stream is good and skips white space,
  and sets \<^verbatim>\<open>failbit\<close> when it cannot deliver a value.
\<close>

record istream =
  buf :: string
  eofbit :: bool
  failbit :: bool

definition good :: "istream \<Rightarrow> bool" where
  "good s \<longleftrightarrow> \<not> eofbit s \<and> \<not> failbit s"

definition isspace :: "char \<Rightarrow> bool" where
  "isspace c \<longleftrightarrow> c \<in> {CHR '' '', CHR 0x09, CHR 0x0A, CHR 0x0B, CHR 0x0C, CHR 0x0D}"

definition isdigit :: "char \<Rightarrow> bool" where
  "isdigit c \<longleftrightarrow> (48::nat) \<le> of_char c \<and> of_char c \<le> (57::nat)"

text \<open>
  The sentry of a formatted extraction: a stream that is not good gets \<^verbatim>\<open>failbit\<close>;
  otherwise white space is skipped, and reaching the end sets \<^verbatim>\<open>eofbit\<close> and \<^verbatim>\<open>failbit\<close>.
\<close>

definition sentry :: "istream \<Rightarrow> bool \<times> istream" where
  "sentry s =
     (if \<not> good s then (False, s\<lparr>failbit := True\<rparr>)
      else (let rest = dropWhile isspace (buf s)
            in if rest = [] then (False, s\<lparr>buf := [], eofbit := True, failbit := True\<rparr>)
               else (True, s\<lparr>buf := rest\<rparr>)))"

text \<open>\<^verbatim>\<open>in >> line_id\<close> for a \<^verbatim>\<open>char\<close>: the next character that is not white space.\<close>

definition get_char :: "istream \<Rightarrow> char option \<times> istream" where
  "get_char s =
     (case sentry s of
        (False, s') \<Rightarrow> (None, s')
      | (True, s') \<Rightarrow> (Some (hd (buf s')), s'\<lparr>buf := tl (buf s')\<rparr>))"

text \<open>The value of a string of decimal digits.\<close>

definition digits_value :: "string \<Rightarrow> int" where
  "digits_value ds = foldl (\<lambda>n c. 10 * n + (of_char c - 48)) 0 ds"

text \<open>
  \<^verbatim>\<open>in >> x\<close> for a \<^verbatim>\<open>uint32_t\<close>, given the old value of \<open>x\<close> (\<open>None\<close> when it was never
  set). When the sentry fails \<open>x\<close> keeps its value. Otherwise an optional sign and the
  decimal digits that follow are consumed; without a digit \<open>x\<close> becomes 0 and \<^verbatim>\<open>failbit\<close>
  is set; a value above \<open>2 ^ 32 - 1\<close> gives the largest value and \<^verbatim>\<open>failbit\<close>; a minus
  sign negates modulo \<open>2 ^ 32\<close>. Reading up to the end of the input sets \<^verbatim>\<open>eofbit\<close>.
\<close>

definition get_u32 :: "32 word option \<Rightarrow> istream \<Rightarrow> 32 word option \<times> istream" where
  "get_u32 x s =
     (case sentry s of
        (False, s') \<Rightarrow> (x, s')
      | (True, s') \<Rightarrow>
          (let signed = (buf s' \<noteq> [] \<and> hd (buf s') \<in> {CHR ''+'', CHR ''-''});
               negative = (buf s' \<noteq> [] \<and> hd (buf s') = CHR ''-'');
               body = (if signed then tl (buf s') else buf s');
               ds = takeWhile isdigit body;
               rest = dropWhile isdigit body;
               n = digits_value ds;
               s'' = s'\<lparr>buf := rest, eofbit := (rest = [])\<rparr>
           in if ds = [] then (Some 0, s''\<lparr>failbit := True\<rparr>)
              else if n > 4294967295 then (Some (- 1), s''\<lparr>failbit := True\<rparr>)
              else (Some (if negative then - word_of_int n else word_of_int n), s'')))"

text \<open>
  \<^verbatim>\<open>in.ignore(n)\<close> and \<^verbatim>\<open>in.ignore(n, delim)\<close>: an unformatted input function, which does
  not skip white space. Characters are discarded until \<open>n\<close> have been discarded, or the
  end is reached (which sets \<^verbatim>\<open>eofbit\<close>), or the delimiter has been discarded.
\<close>

fun ignore_loop :: "nat \<Rightarrow> char option \<Rightarrow> string \<Rightarrow> string \<times> bool" where
  "ignore_loop 0 delim cs = (cs, False)"
| "ignore_loop (Suc n) delim [] = ([], True)"
| "ignore_loop (Suc n) delim (c # cs) =
     (if delim = Some c then (cs, False) else ignore_loop n delim cs)"

definition ignore :: "nat \<Rightarrow> char option \<Rightarrow> istream \<Rightarrow> istream" where
  "ignore n delim s =
     (if \<not> good s then s\<lparr>failbit := True\<rparr>
      else (let (rest, eof) = ignore_loop n delim (buf s)
            in s\<lparr>buf := rest, eofbit := eof\<rparr>))"

subsection \<open>read_graph\<close>

text \<open>\<^verbatim>\<open>Graph::contains\<close>, \<^verbatim>\<open>Graph::degree\<close> and \<^verbatim>\<open>Graph::remove_isolated\<close>.\<close>

definition contains :: "Graph \<Rightarrow> NodeID \<Rightarrow> bool option" where
  "contains g v = do {
     n \<leftarrow> nth_opt (node_data g) v;
     Some (nd_subgraph_id n = subgraph_id g)
   }"

fun degree_loop :: "Graph \<Rightarrow> Neighbor list \<Rightarrow> nat \<Rightarrow> nat option" where
  "degree_loop g [] deg = Some deg"
| "degree_loop g (n # ns) deg = do {
     c \<leftarrow> contains g (node n);
     degree_loop g ns (if c then Suc deg else deg)
   }"

definition degree :: "build_config \<Rightarrow> Graph \<Rightarrow> NodeID \<Rightarrow> nat option" where
  "degree cfg g v = do {
     c \<leftarrow> contains g v;
     if \<not> NDEBUG cfg \<and> \<not> c then None
     else do {
       nv \<leftarrow> nth_opt (node_data g) v;
       degree_loop g (neighbors nv) 0
     }
   }"

text \<open>
  The loop of \<^verbatim>\<open>remove_isolated\<close> marks each vertex of degree 0 as outside the graph and
  collects it; the marked vertices are then erased from \<^verbatim>\<open>nodes\<close>.
\<close>

fun isolated_loop :: "build_config \<Rightarrow> Graph \<Rightarrow> NodeID list \<Rightarrow> NodeID list \<Rightarrow> (Graph \<times> NodeID list) option" where
  "isolated_loop cfg g [] isolated = Some (g, isolated)"
| "isolated_loop cfg g (v # vs) isolated = do {
     deg \<leftarrow> degree cfg g v;
     if deg = 0
     then isolated_loop cfg
            (g\<lparr>node_data := (node_data g)[v := (node_data g ! v)\<lparr>nd_subgraph_id := NO_SUBGRAPH\<rparr>]\<rparr>)
            vs (v # isolated)
     else isolated_loop cfg g vs isolated
   }"

definition remove_isolated :: "build_config \<Rightarrow> Graph \<Rightarrow> Graph option" where
  "remove_isolated cfg g = do {
     (g', isolated) \<leftarrow> isolated_loop cfg g (nodes g) [];
     Some (g'\<lparr>nodes := filter (\<lambda>v. v \<notin> set isolated) (nodes g')\<rparr>)
   }"

text \<open>
  The local variables \<^verbatim>\<open>v\<close>, \<^verbatim>\<open>w\<close>, \<^verbatim>\<open>d\<close> of \<^verbatim>\<open>read_graph\<close> are not initialised; \<open>None\<close> is
  a variable that has not been given a value yet, and passing it on has no defined result.
\<close>

record read_state =
  rs_graph :: Graph
  rs_in :: istream
  rs_v :: "32 word option"
  rs_w :: "32 word option"
  rs_d :: "32 word option"

text \<open>The body of the \<^verbatim>\<open>switch\<close>, after \<^verbatim>\<open>line_id\<close> has been read.\<close>

definition read_line :: "build_config \<Rightarrow> read_state \<Rightarrow> char \<Rightarrow> read_state option" where
  "read_line cfg st line_id =
     (if line_id = CHR ''p''
      then (let (v, in1) = get_u32 (rs_v st) (ignore 3 None (rs_in st));
                in2 = ignore 1000 (Some (CHR 0x0A)) in1
            in do {
              n \<leftarrow> v;
              g \<leftarrow> resize cfg (rs_graph st) (unat n);
              Some (st\<lparr>rs_graph := g, rs_in := in2, rs_v := v\<rparr>)
            })
      else if line_id = CHR ''a''
      then (let (v, in1) = get_u32 (rs_v st) (rs_in st);
                (w, in2) = get_u32 (rs_w st) in1;
                (d, in3) = get_u32 (rs_d st) in2
            in do {
              a \<leftarrow> v; b \<leftarrow> w; c \<leftarrow> d;
              g \<leftarrow> add_edge cfg (rs_graph st) (unat a) (unat b) c True;
              Some \<lparr>rs_graph = g, rs_in = in3, rs_v = v, rs_w = w, rs_d = d\<rparr>
            })
      else Some (st\<lparr>rs_in := ignore 1000 (Some (CHR 0x0A)) (rs_in st)\<rparr>))"

text \<open>
  The loop \<^verbatim>\<open>while (in >> line_id)\<close>. Reading \<^verbatim>\<open>line_id\<close> consumes a character, so the input
  left gets shorter with every line; the test on the lengths is always true (lemma
  \<open>read_line_shorter\<close> below) and only makes this evident to the termination check.
\<close>

function read_loop :: "build_config \<Rightarrow> read_state \<Rightarrow> read_state option" where
  "read_loop cfg st =
     (case get_char (rs_in st) of
        (None, in') \<Rightarrow> Some (st\<lparr>rs_in := in'\<rparr>)
      | (Some line_id, in') \<Rightarrow>
          (case read_line cfg (st\<lparr>rs_in := in'\<rparr>) line_id of
             None \<Rightarrow> None
           | Some st' \<Rightarrow>
               if length (buf (rs_in st')) < length (buf (rs_in st)) then read_loop cfg st'
               else None))"
  by pat_completeness auto
termination
  by (relation "measure (\<lambda>(cfg, st). length (buf (rs_in st)))") auto

declare read_loop.simps [simp del]

definition read_graph :: "build_config \<Rightarrow> Graph \<Rightarrow> string \<Rightarrow> Graph option" where
  "read_graph cfg g input = do {
     st \<leftarrow> read_loop cfg \<lparr>rs_graph = g, rs_in = \<lparr>buf = input, eofbit = False, failbit = False\<rparr>,
                           rs_v = None, rs_w = None, rs_d = None\<rparr>;
     remove_isolated cfg (rs_graph st)
   }"

text \<open>
  The graph \<^verbatim>\<open>Graph g;\<close> of the three programs: no vertices besides vertex 0 and the two
  extra vertices, and the first subgraph id.
\<close>

definition empty_graph :: Graph where
  "empty_graph =
     \<lparr>node_data = replicate 3 \<lparr>nd_subgraph_id = NO_SUBGRAPH, neighbors = []\<rparr>, nodes = [], subgraph_id = 1\<rparr>"

section \<open>Building the shortcut graph\<close>

text \<open>
  \<^verbatim>\<open>std::sort\<close> with a comparison \<open>lt\<close>. The order of elements that compare as
  equivalent is left open by \<^verbatim>\<open>std::sort\<close>; here it is the order of an insertion sort.
\<close>

fun insert_by :: "('a \<Rightarrow> 'a \<Rightarrow> bool) \<Rightarrow> 'a \<Rightarrow> 'a list \<Rightarrow> 'a list" where
  "insert_by lt x [] = [x]"
| "insert_by lt x (y # ys) = (if \<not> lt y x then x # y # ys else y # insert_by lt x ys)"

definition sort_by :: "('a \<Rightarrow> 'a \<Rightarrow> bool) \<Rightarrow> 'a list \<Rightarrow> 'a list" where
  "sort_by lt xs = foldr (insert_by lt) xs []"

text \<open>
  The loop of \<^verbatim>\<open>util::make_set(v, comp)\<close> after sorting: an element is kept when its node
  differs from the node of the element kept last.
\<close>

fun unique_loop :: "Neighbor \<Rightarrow> Neighbor list \<Rightarrow> Neighbor list" where
  "unique_loop last_distinct [] = []"
| "unique_loop last_distinct (x # xs) =
     (if node x \<noteq> node last_distinct then x # unique_loop x xs else unique_loop last_distinct xs)"

definition make_set :: "(Neighbor \<Rightarrow> Neighbor \<Rightarrow> bool) \<Rightarrow> Neighbor list \<Rightarrow> Neighbor list" where
  "make_set cmp v =
     (if length v < 2 then v
      else (case sort_by cmp v of [] \<Rightarrow> [] | x # xs \<Rightarrow> x # unique_loop x xs))"

text \<open>
  The two comparisons of \<^verbatim>\<open>create_sc_graph\<close>, \<^verbatim>\<open>di_order\<close> on vertices and \<^verbatim>\<open>di_order1\<close>
  on up-neighbours. They are only applied to vertices of \<open>ch\<close>.
\<close>

definition di_of :: "ContractionHierarchy \<Rightarrow> NodeID \<Rightarrow> u16" where
  "di_of ch v = ch_dist_index (ch ! v)"

definition di_order :: "ContractionHierarchy \<Rightarrow> NodeID \<Rightarrow> NodeID \<Rightarrow> bool" where
  "di_order ch a b \<longleftrightarrow> di_of ch a > di_of ch b"

definition di_order1 :: "ContractionHierarchy \<Rightarrow> Neighbor \<Rightarrow> Neighbor \<Rightarrow> bool" where
  "di_order1 ch a b \<longleftrightarrow>
     (if di_of ch (node a) > di_of ch (node b) then True
      else if di_of ch (node a) = di_of ch (node b) \<and> distance a < distance b then True
      else if di_of ch (node a) = di_of ch (node b) \<and> distance a = distance b
              \<and> path_count a > path_count b then True
      else False)"

text \<open>\<^verbatim>\<open>vector::resize(n, x)\<close>.\<close>

definition vec_resize :: "nat \<Rightarrow> 'a \<Rightarrow> 'a list \<Rightarrow> 'a list" where
  "vec_resize n x xs = take n xs @ replicate (n - length xs) x"

definition default_CHNode :: CHNode where
  "default_CHNode = \<lparr>ch_dist_index = 0, up_neighbors = [], down_neighbors = []\<rparr>"

record sc_state =
  sc_ch :: ContractionHierarchy
  sc_ci :: "CutIndex list"

text \<open>
  First loop of \<^verbatim>\<open>create_sc_graph(ch, ci, closest)\<close>: a vertex that was not contracted
  gets the position of its own label as \<^verbatim>\<open>dist_index\<close> and label arrays of that size,
  a contracted vertex gets 65535. The vertices that were not contracted are collected.
\<close>

fun sc_init_loop :: "Neighbor list \<Rightarrow> NodeID list \<Rightarrow> sc_state \<Rightarrow> NodeID list
    \<Rightarrow> (sc_state \<times> NodeID list) option" where
  "sc_init_loop closest [] st bottom_up_nodes = Some (st, bottom_up_nodes)"
| "sc_init_loop closest (v # vs) st bottom_up_nodes = do {
     c \<leftarrow> nth_opt closest v;
     if node c = v
     then do {
       cv \<leftarrow> nth_opt (sc_ci st) v;
       last_index \<leftarrow> nth_opt (ci_dist_index cv) (ci_cut_level cv);
       nv \<leftarrow> nth_opt (sc_ch st) v;
       let di = last_index - 1;
       sc_init_loop closest vs
         \<lparr>sc_ch = (sc_ch st)[v := nv\<lparr>ch_dist_index := di\<rparr>],
          sc_ci = (sc_ci st)[v := cv\<lparr>ci_distances := vec_resize (unat di) infinity (ci_distances cv),
                                     ci_paths := vec_resize (unat di) 0 (ci_paths cv)\<rparr>]\<rparr>
         (bottom_up_nodes @ [v])
     }
     else do {
       nv \<leftarrow> nth_opt (sc_ch st) v;
       sc_init_loop closest vs (st\<lparr>sc_ch := (sc_ch st)[v := nv\<lparr>ch_dist_index := 65535\<rparr>]\<rparr>)
         bottom_up_nodes
     }
   }"

text \<open>
  Second loop: every graph edge from \<open>v\<close> to a vertex that was not contracted and has a
  smaller \<^verbatim>\<open>dist_index\<close> becomes an up-neighbour of \<open>v\<close> with path count 1, and seeds the
  label of \<open>v\<close>.
\<close>

fun sc_edges_loop :: "Neighbor list \<Rightarrow> NodeID \<Rightarrow> Neighbor list \<Rightarrow> sc_state \<Rightarrow> sc_state option" where
  "sc_edges_loop closest v [] st = Some st"
| "sc_edges_loop closest v (n # ns) st = do {
     c \<leftarrow> nth_opt closest (node n);
     if node c = node n
     then do {
       nn \<leftarrow> nth_opt (sc_ch st) (node n);
       nv \<leftarrow> nth_opt (sc_ch st) v;
       if ch_dist_index nn < ch_dist_index nv
       then do {
         cv \<leftarrow> nth_opt (sc_ci st) v;
         let k = unat (ch_dist_index nn);
         if k < length (ci_distances cv) \<and> k < length (ci_paths cv)
         then sc_edges_loop closest v ns
                \<lparr>sc_ch = (sc_ch st)[v := nv\<lparr>up_neighbors := up_neighbors nv @
                            [\<lparr>node = node n, distance = distance n, path_count = 1\<rparr>]\<rparr>],
                 sc_ci = (sc_ci st)[v := cv\<lparr>ci_distances := (ci_distances cv)[k := distance n],
                                            ci_paths := (ci_paths cv)[k := 1]\<rparr>]\<rparr>
         else None
       }
       else sc_edges_loop closest v ns st
     }
     else sc_edges_loop closest v ns st
   }"

fun sc_edges :: "Graph \<Rightarrow> Neighbor list \<Rightarrow> NodeID list \<Rightarrow> sc_state \<Rightarrow> sc_state option" where
  "sc_edges g closest [] st = Some st"
| "sc_edges g closest (v # vs) st = do {
     nv \<leftarrow> nth_opt (node_data g) v;
     st' \<leftarrow> sc_edges_loop closest v (neighbors nv) st;
     sc_edges g closest vs st'
   }"

text \<open>
  The body of the two nested loops over the up-neighbours \<open>up[i]\<close>, \<open>up[j]\<close> (\<open>i < j\<close>) of
  \<open>v\<close>: the path through \<open>v\<close> is compared with the label of \<open>up[i]\<close> for \<open>up[j]\<close> and may
  become a shortcut from \<open>up[i]\<close> to \<open>up[j]\<close>. The loops run over the up-neighbours of \<open>v\<close>
  as they are after \<^verbatim>\<open>make_set\<close>; a shortcut that would be appended to that same list
  (\<open>up[i]\<close> being \<open>v\<close> itself) would change the list under the loops and has no result
  here. The path count is the product modulo \<open>2 ^ 16\<close>.
\<close>

definition sc_pair :: "NodeID \<Rightarrow> Neighbor \<Rightarrow> Neighbor \<Rightarrow> sc_state \<Rightarrow> sc_state option" where
  "sc_pair v ui uj st =
     (if node ui = v then None
      else do {
        nj \<leftarrow> nth_opt (sc_ch st) (node uj);
        ni \<leftarrow> nth_opt (sc_ch st) (node ui);
        ci_i \<leftarrow> nth_opt (sc_ci st) (node ui);
        let weight = distance ui + distance uj;
        let pc = path_count ui * path_count uj;
        let k = unat (ch_dist_index nj);
        cur \<leftarrow> nth_opt (ci_distances ci_i) k;
        if weight < cur
        then (if k < length (ci_paths ci_i)
              then Some \<lparr>sc_ch = (sc_ch st)[node ui := ni\<lparr>up_neighbors := up_neighbors ni @
                                     [\<lparr>node = node uj, distance = weight, path_count = pc\<rparr>]\<rparr>],
                         sc_ci = (sc_ci st)[node ui := ci_i\<lparr>ci_distances := (ci_distances ci_i)[k := weight],
                                                           ci_paths := (ci_paths ci_i)[k := pc]\<rparr>]\<rparr>
              else None)
        else if weight = cur
        then do {
          p \<leftarrow> nth_opt (ci_paths ci_i) k;
          Some \<lparr>sc_ch = (sc_ch st)[node ui := ni\<lparr>up_neighbors := up_neighbors ni @
                            [\<lparr>node = node uj, distance = weight, path_count = p + pc\<rparr>]\<rparr>],
                sc_ci = (sc_ci st)[node ui := ci_i\<lparr>ci_paths := (ci_paths ci_i)[k := p + pc]\<rparr>]\<rparr>
        }
        else Some st
      })"

fun sc_inner_loop :: "NodeID \<Rightarrow> Neighbor \<Rightarrow> Neighbor list \<Rightarrow> sc_state \<Rightarrow> sc_state option" where
  "sc_inner_loop v ui [] st = Some st"
| "sc_inner_loop v ui (uj # ujs) st = do {
     st' \<leftarrow> sc_pair v ui uj st;
     sc_inner_loop v ui ujs st'
   }"

fun sc_outer_loop :: "NodeID \<Rightarrow> Neighbor list \<Rightarrow> sc_state \<Rightarrow> sc_state option" where
  "sc_outer_loop v [] st = Some st"
| "sc_outer_loop v (ui # up) st = do {
     st' \<leftarrow> sc_inner_loop v ui up st;
     sc_outer_loop v up st'
   }"

text \<open>The loop that records \<open>v\<close> as a down-neighbour of each of its up-neighbours.\<close>

fun sc_down_loop :: "NodeID \<Rightarrow> Neighbor list \<Rightarrow> ContractionHierarchy \<Rightarrow> ContractionHierarchy option" where
  "sc_down_loop v [] ch = Some ch"
| "sc_down_loop v (upn # up) ch = do {
     n \<leftarrow> nth_opt ch (node upn);
     sc_down_loop v up (ch[node upn := n\<lparr>down_neighbors := down_neighbors n @ [v]\<rparr>])
   }"

text \<open>Third loop, over the vertices in descending order of \<^verbatim>\<open>dist_index\<close>.\<close>

fun sc_shortcuts :: "NodeID list \<Rightarrow> sc_state \<Rightarrow> sc_state option" where
  "sc_shortcuts [] st = Some st"
| "sc_shortcuts (v # vs) st = do {
     nv \<leftarrow> nth_opt (sc_ch st) v;
     let up = make_set (di_order1 (sc_ch st)) (up_neighbors nv);
     st1 \<leftarrow> sc_outer_loop v up (st\<lparr>sc_ch := (sc_ch st)[v := nv\<lparr>up_neighbors := up\<rparr>]\<rparr>);
     ch2 \<leftarrow> sc_down_loop v up (sc_ch st1);
     sc_shortcuts vs (st1\<lparr>sc_ch := ch2\<rparr>)
   }"

text \<open>
  Last loop (the variant compiled without \<^verbatim>\<open>MULTI_THREAD_DISTANCES\<close>), over the vertices
  in ascending order of \<^verbatim>\<open>dist_index\<close>: the label of \<open>v\<close> for every ancestor position is
  the best combination of an up-neighbour and the label of that up-neighbour; then the
  entry for \<open>v\<close> itself is appended. First the loop over the positions \<open>anc\<close> for one
  up-neighbour \<open>n\<close>. As in \<^verbatim>\<open>get_paths\<close>, path counts are multiplied and added modulo
  \<open>2 ^ 16\<close>.
\<close>

fun sc_anc_loop :: "Neighbor \<Rightarrow> NodeID \<Rightarrow> nat list \<Rightarrow> CutIndex list \<Rightarrow> CutIndex list option" where
  "sc_anc_loop n v [] ci = Some ci"
| "sc_anc_loop n v (anc # ancs) ci = do {
     cn \<leftarrow> nth_opt ci (node n);
     nd \<leftarrow> nth_opt (ci_distances cn) anc;
     np \<leftarrow> nth_opt (ci_paths cn) anc;
     cv \<leftarrow> nth_opt ci v;
     vd \<leftarrow> nth_opt (ci_distances cv) anc;
     let dist = distance n + nd;
     let pc = path_count n * np;
     if dist < vd
     then (if anc < length (ci_paths cv)
           then sc_anc_loop n v ancs
                  (ci[v := cv\<lparr>ci_distances := (ci_distances cv)[anc := dist],
                               ci_paths := (ci_paths cv)[anc := pc]\<rparr>])
           else None)
     else if dist = vd
     then do {
       vp \<leftarrow> nth_opt (ci_paths cv) anc;
       sc_anc_loop n v ancs (ci[v := cv\<lparr>ci_paths := (ci_paths cv)[anc := vp + pc]\<rparr>])
     }
     else sc_anc_loop n v ancs ci
   }"

fun sc_up_loop :: "ContractionHierarchy \<Rightarrow> NodeID \<Rightarrow> Neighbor list \<Rightarrow> CutIndex list
    \<Rightarrow> CutIndex list option" where
  "sc_up_loop ch v [] ci = Some ci"
| "sc_up_loop ch v (n # ns) ci = do {
     nn \<leftarrow> nth_opt ch (node n);
     ci' \<leftarrow> sc_anc_loop n v [0..<unat (ch_dist_index nn)] ci;
     sc_up_loop ch v ns ci'
   }"

fun sc_labels :: "NodeID list \<Rightarrow> sc_state \<Rightarrow> sc_state option" where
  "sc_labels [] st = Some st"
| "sc_labels (v # vs) st = do {
     nv \<leftarrow> nth_opt (sc_ch st) v;
     ci' \<leftarrow> sc_up_loop (sc_ch st) v (up_neighbors nv) (sc_ci st);
     cv \<leftarrow> nth_opt ci' v;
     sc_labels vs
       \<lparr>sc_ch = (sc_ch st)[v := nv\<lparr>down_neighbors := sort_by (<) (down_neighbors nv)\<rparr>],
        sc_ci = ci'[v := cv\<lparr>ci_distances := ci_distances cv @ [0], ci_paths := ci_paths cv @ [1]\<rparr>]\<rparr>
   }"

text \<open>
  \<^verbatim>\<open>Graph::create_sc_graph(ch, ci, closest)\<close>: \<open>ch.nodes\<close> is resized to one more than the
  number of vertices of the graph, then the four loops run.
\<close>

definition create_sc_graph :: "Graph \<Rightarrow> ContractionHierarchy \<Rightarrow> CutIndex list \<Rightarrow> Neighbor list
    \<Rightarrow> sc_state option" where
  "create_sc_graph g ch ci closest = do {
     (st0, bottom_up_nodes) \<leftarrow>
        sc_init_loop closest (nodes g)
          \<lparr>sc_ch = vec_resize (length (nodes g) + 1) default_CHNode ch, sc_ci = ci\<rparr> [];
     st1 \<leftarrow> sc_edges g closest bottom_up_nodes st0;
     let sorted_nodes = sort_by (di_order (sc_ch st1)) bottom_up_nodes;
     st2 \<leftarrow> sc_shortcuts sorted_nodes st1;
     sc_labels (rev sorted_nodes) st2
   }"

text \<open>
  The last loop in the build with \<^verbatim>\<open>MULTI_THREAD_DISTANCES\<close>, which the other functions of
  the file need (\<^verbatim>\<open>DCL_Dec_Par\<close> and the lambda at the head of \<^verbatim>\<open>create_sc_graph\<close> use the
  macro outside any \<^verbatim>\<open>#ifdef\<close>). The threads take the vertices from a
  \<^verbatim>\<open>par_max_bucket_list\<close> bucket by bucket, in ascending order of \<^verbatim>\<open>dist_index\<close>, with a
  barrier between two buckets; each vertex writes its own label and reads the labels of
  its up-neighbours. The loop body is that of the variant without threads, except that
  the down-neighbours are not sorted: this variant leaves \<open>ch\<close> as the third loop made it.
  The vertices are taken here in the order of the variant without threads.
\<close>

fun sc_labels_mt :: "NodeID list \<Rightarrow> sc_state \<Rightarrow> sc_state option" where
  "sc_labels_mt [] st = Some st"
| "sc_labels_mt (v # vs) st = do {
     nv \<leftarrow> nth_opt (sc_ch st) v;
     ci' \<leftarrow> sc_up_loop (sc_ch st) v (up_neighbors nv) (sc_ci st);
     cv \<leftarrow> nth_opt ci' v;
     sc_labels_mt vs
       (st\<lparr>sc_ci := ci'[v := cv\<lparr>ci_distances := ci_distances cv @ [0], ci_paths := ci_paths cv @ [1]\<rparr>]\<rparr>)
   }"

definition create_sc_graph_mt :: "Graph \<Rightarrow> ContractionHierarchy \<Rightarrow> CutIndex list \<Rightarrow> Neighbor list
    \<Rightarrow> sc_state option" where
  "create_sc_graph_mt g ch ci closest = do {
     (st0, bottom_up_nodes) \<leftarrow>
        sc_init_loop closest (nodes g)
          \<lparr>sc_ch = vec_resize (length (nodes g) + 1) default_CHNode ch, sc_ci = ci\<rparr> [];
     st1 \<leftarrow> sc_edges g closest bottom_up_nodes st0;
     let sorted_nodes = sort_by (di_order (sc_ch st1)) bottom_up_nodes;
     st2 \<leftarrow> sc_shortcuts sorted_nodes st1;
     sc_labels_mt (rev sorted_nodes) st2
   }"

text \<open>
  The order of the shortcut graph: every up-neighbour of a vertex has a smaller
  \<^verbatim>\<open>dist_index\<close> than the vertex.
\<close>

definition up_order :: "ContractionHierarchy \<Rightarrow> bool" where
  "up_order ch =
     list_all (\<lambda>nv. list_all (\<lambda>n. node n < length ch
                                   \<and> ch_dist_index (ch ! node n) < ch_dist_index nv)
                        (up_neighbors nv)) ch"

text \<open>The edges of the shortcut graph, from a vertex to its up-neighbours.\<close>

definition up_edges :: "ContractionHierarchy \<Rightarrow> (NodeID \<times> NodeID) set" where
  "up_edges ch = {(v, w). v < length ch \<and> w \<in> node ` set (up_neighbors (ch ! v))}"

subsection \<open>The cut hierarchy behind the labels\<close>

text \<open>
  \<^verbatim>\<open>create_sc_graph\<close> is called with the labels that \<^verbatim>\<open>create_cut_index\<close> has produced:
  \<^verbatim>\<open>partition\<close> and \<^verbatim>\<open>cut_level\<close> give the place of a vertex in the tree of cuts, and the
  last entry of \<^verbatim>\<open>dist_index\<close> its position among the vertices of its branch. The
  following definitions say what the function relies on. A vertex is a core vertex when
  it belongs to the graph and was not contracted; \<open>ci_di\<close> is the \<^verbatim>\<open>dist_index\<close> that the
  first loop assigns to it; \<open>anc ci x y\<close> says that the cut of \<open>x\<close> lies on the branch from
  the root to the cut of \<open>y\<close> (the first \<^verbatim>\<open>cut_level\<close> bits of the partition agree).
\<close>

definition core :: "Graph \<Rightarrow> Neighbor list \<Rightarrow> NodeID \<Rightarrow> bool" where
  "core g closest v \<longleftrightarrow> v \<in> set (nodes g) \<and> node (closest ! v) = v"

definition ci_di :: "CutIndex list \<Rightarrow> NodeID \<Rightarrow> u16" where
  "ci_di ci v = ci_dist_index (ci ! v) ! ci_cut_level (ci ! v) - 1"

definition anc :: "CutIndex list \<Rightarrow> NodeID \<Rightarrow> NodeID \<Rightarrow> bool" where
  "anc ci x y \<longleftrightarrow>
     ci_cut_level (ci ! x) \<le> ci_cut_level (ci ! y)
     \<and> take_bit (ci_cut_level (ci ! x)) (ci_partition (ci ! x))
         = take_bit (ci_cut_level (ci ! x)) (ci_partition (ci ! y))"

text \<open>
  The labels form a cut hierarchy of the graph: an edge between two core vertices joins
  vertices of one branch (a cut separates the two sides below it), and along a branch
  the \<^verbatim>\<open>dist_index\<close> grows strictly, two vertices of one cut having different values.
\<close>

definition hierarchy_ok :: "Graph \<Rightarrow> CutIndex list \<Rightarrow> Neighbor list \<Rightarrow> bool" where
  "hierarchy_ok g ci closest \<longleftrightarrow>
     (\<forall>v \<in> set (nodes g). core g closest v \<longrightarrow>
        (\<forall>n \<in> set (neighbors (node_data g ! v)). node (closest ! node n) = node n \<longrightarrow>
           node n \<in> set (nodes g) \<and> (anc ci (node n) v \<or> anc ci v (node n))))
     \<and> (\<forall>x \<in> set (nodes g). \<forall>y \<in> set (nodes g).
          core g closest x \<and> core g closest y \<and> x \<noteq> y \<and> anc ci x y \<longrightarrow>
            (if anc ci y x then ci_di ci x \<noteq> ci_di ci y else ci_di ci x < ci_di ci y))"

text \<open>
  The invariant of the loops of \<^verbatim>\<open>create_sc_graph\<close>: every vertex of the graph is inside
  \<open>ch\<close>, a core vertex has the \<^verbatim>\<open>dist_index\<close> of its label, and every up-neighbour \<open>x\<close> of
  a vertex \<open>v\<close> is a core vertex above \<open>v\<close> on the branch of \<open>v\<close>.
\<close>

definition sc_good :: "Graph \<Rightarrow> CutIndex list \<Rightarrow> Neighbor list \<Rightarrow> NodeID \<Rightarrow> NodeID \<Rightarrow> bool" where
  "sc_good g ci closest v x \<longleftrightarrow>
     core g closest v \<and> core g closest x \<and> anc ci x v \<and> ci_di ci x < ci_di ci v"

definition sc_inv :: "Graph \<Rightarrow> CutIndex list \<Rightarrow> Neighbor list \<Rightarrow> ContractionHierarchy \<Rightarrow> bool" where
  "sc_inv g ci closest ch \<longleftrightarrow>
     (\<forall>x \<in> set (nodes g). x < length ch
         \<and> (core g closest x \<longrightarrow> ch_dist_index (ch ! x) = ci_di ci x))
     \<and> (\<forall>v < length ch. \<forall>n \<in> set (up_neighbors (ch ! v)). sc_good g ci closest v (node n))"

text \<open>
  What the order of the shortcut graph depends on: the \<^verbatim>\<open>dist_index\<close> of every vertex and
  the nodes of its up-neighbours, without their distances and path counts.
\<close>

definition ch_shape :: "ContractionHierarchy \<Rightarrow> (u16 \<times> NodeID list) list" where
  "ch_shape ch = map (\<lambda>nv. (ch_dist_index nv, map node (up_neighbors nv))) ch"

section \<open>Maintaining the shortcut graph\<close>

text \<open>
  A weight change \<open>((old, new), (a, b))\<close> of the edge between \<open>a\<close> and \<open>b\<close>, as passed to
  \<^verbatim>\<open>GS_Dec\<close>, \<^verbatim>\<open>GS_Inc\<close>, \<^verbatim>\<open>DCL_Dec\<close> and \<^verbatim>\<open>DCL_Inc\<close>.
\<close>

type_synonym update = "(distance_t \<times> distance_t) \<times> (NodeID \<times> NodeID)"

record DCHSearchNode =
  dch_dist_index :: u16
  dch_v :: NodeID
  dch_w :: NodeID
  dch_distance :: distance_t
  dch_path_count :: u16

text \<open>
  \<^verbatim>\<open>std::priority_queue<DCHSearchNode>\<close>, as the list of its elements in the order they
  were pushed. \<^verbatim>\<open>top\<close> is an element with the greatest \<^verbatim>\<open>dist_index\<close>; which one of
  several is decided by the heap of the library, here it is the one pushed first.
\<close>

definition pq_pop :: "DCHSearchNode list \<Rightarrow> (DCHSearchNode \<times> DCHSearchNode list) option" where
  "pq_pop q = do {
     x \<leftarrow> find (\<lambda>x. list_all (\<lambda>y. dch_dist_index y \<le> dch_dist_index x) q) q;
     Some (x, remove1 x q)
   }"

text \<open>
  Writing \<^verbatim>\<open>x.distance = d; x.path_count = c\<close> through the reference
  \<^verbatim>\<open>x = UpNeighbor(ch, v, w)\<close>: the first up-neighbour of \<open>v\<close> with node \<open>w\<close> is changed.
\<close>

fun update_first :: "NodeID \<Rightarrow> distance_t \<Rightarrow> u16 \<Rightarrow> Neighbor list \<Rightarrow> Neighbor list" where
  "update_first w d c [] = []"
| "update_first w d c (n # ns) =
     (if node n = w then n\<lparr>distance := d, path_count := c\<rparr> # ns
      else n # update_first w d c ns)"

definition set_UpNeighbor :: "ContractionHierarchy \<Rightarrow> NodeID \<Rightarrow> NodeID \<Rightarrow> distance_t \<Rightarrow> u16
    \<Rightarrow> ContractionHierarchy" where
  "set_UpNeighbor ch v w d c =
     ch[v := (ch ! v)\<lparr>up_neighbors := update_first w d c (up_neighbors (ch ! v))\<rparr>]"

text \<open>
  The step that \<^verbatim>\<open>GS_Dec\<close> and \<^verbatim>\<open>GS_Inc\<close> share: order \<open>a\<close> and \<open>b\<close> so that \<open>a\<close> has the
  larger \<^verbatim>\<open>dist_index\<close>, and queue the shortcut from \<open>a\<close> to \<open>b\<close> with the new distance
  when the stored distance compares to it as \<open>cmp\<close> says (\<open>\<ge>\<close> in \<^verbatim>\<open>GS_Dec\<close>, \<open>=\<close> in
  \<^verbatim>\<open>GS_Inc\<close>).
\<close>

definition gs_push :: "(distance_t \<Rightarrow> distance_t \<Rightarrow> bool) \<Rightarrow> ContractionHierarchy \<Rightarrow> NodeID \<Rightarrow> NodeID
    \<Rightarrow> distance_t \<Rightarrow> u16 \<Rightarrow> DCHSearchNode list \<Rightarrow> DCHSearchNode list option" where
  "gs_push cmp ch a0 b0 dist pc q = do {
     na0 \<leftarrow> nth_opt ch a0;
     nb0 \<leftarrow> nth_opt ch b0;
     let a = (if ch_dist_index na0 < ch_dist_index nb0 then b0 else a0);
     let b = (if ch_dist_index na0 < ch_dist_index nb0 then a0 else b0);
     x \<leftarrow> UpNeighbor ch a b;
     na \<leftarrow> nth_opt ch a;
     if cmp (distance x) dist
     then Some (q @ [\<lparr>dch_dist_index = ch_dist_index na, dch_v = a, dch_w = b,
                      dch_distance = dist, dch_path_count = pc\<rparr>])
     else Some q
   }"

text \<open>The loop over the up-neighbours of \<open>next.v\<close> other than \<open>next.w\<close>.\<close>

fun gs_up_loop :: "(distance_t \<Rightarrow> distance_t \<Rightarrow> bool) \<Rightarrow> ContractionHierarchy \<Rightarrow> DCHSearchNode
    \<Rightarrow> Neighbor list \<Rightarrow> DCHSearchNode list \<Rightarrow> DCHSearchNode list option" where
  "gs_up_loop cmp ch next [] q = Some q"
| "gs_up_loop cmp ch next (n # ns) q =
     (if node n \<noteq> dch_w next
      then do {
        q' \<leftarrow> gs_push cmp ch (dch_w next) (node n) (dch_distance next + distance n)
                (dch_path_count next * path_count n) q;
        gs_up_loop cmp ch next ns q'
      }
      else gs_up_loop cmp ch next ns q)"

text \<open>\<^verbatim>\<open>Graph::merge_edges\<close>: sort, then combine the entries of one shortcut.\<close>

fun changed_less :: "changed_edge \<Rightarrow> changed_edge \<Rightarrow> bool" where
  "changed_less ((v, w), (d, c)) ((v', w'), (d', c')) \<longleftrightarrow>
     v < v' \<or> (v = v' \<and> (w < w' \<or> (w = w' \<and> (d < d' \<or> (d = d' \<and> c < c')))))"

fun merge_loop :: "changed_edge \<Rightarrow> changed_edge list \<Rightarrow> changed_edge list" where
  "merge_loop last_distinct [] = [last_distinct]"
| "merge_loop last_distinct (x # xs) =
     (if fst x = fst last_distinct
      then (if fst (snd x) < fst (snd last_distinct)
            then merge_loop (fst last_distinct, snd x) xs
            else if fst (snd x) = fst (snd last_distinct)
            then merge_loop (fst last_distinct,
                             (fst (snd last_distinct), snd (snd last_distinct) + snd (snd x))) xs
            else merge_loop last_distinct xs)
      else last_distinct # merge_loop x xs)"

definition merge_edges :: "changed_edge list \<Rightarrow> changed_edge list" where
  "merge_edges v =
     (if length v < 2 then v
      else (case sort_by changed_less v of [] \<Rightarrow> [] | x # xs \<Rightarrow> merge_loop x xs))"

subsection \<open>GS_Dec\<close>

fun gs_dec_seed :: "ContractionHierarchy \<Rightarrow> update list \<Rightarrow> DCHSearchNode list
    \<Rightarrow> DCHSearchNode list option" where
  "gs_dec_seed ch [] q = Some q"
| "gs_dec_seed ch (((old_weight, new_weight), (a, b)) # updates) q = do {
     q' \<leftarrow> gs_push (\<ge>) ch a b new_weight 1 q;
     gs_dec_seed ch updates q'
   }"

text \<open>
  The loop \<^verbatim>\<open>while (!q.empty())\<close> of \<^verbatim>\<open>GS_Dec\<close>, for at most \<open>fuel\<close> iterations; \<open>None\<close>
  also stands for a run that needs more.
\<close>

fun gs_dec_loop :: "nat \<Rightarrow> ContractionHierarchy \<Rightarrow> DCHSearchNode list \<Rightarrow> changed_edge list
    \<Rightarrow> (ContractionHierarchy \<times> changed_edge list) option" where
  "gs_dec_loop fuel ch [] C = Some (ch, C)"
| "gs_dec_loop 0 ch (e # q) C = None"
| "gs_dec_loop (Suc fuel) ch (e # q) C = do {
     (next, q1) \<leftarrow> pq_pop (e # q);
     x \<leftarrow> UpNeighbor ch (dch_v next) (dch_w next);
     if dch_distance next < distance x \<or> dch_distance next = distance x
     then do {
       let ch' = (if dch_distance next < distance x
                  then set_UpNeighbor ch (dch_v next) (dch_w next) (dch_distance next) (dch_path_count next)
                  else set_UpNeighbor ch (dch_v next) (dch_w next) (distance x)
                         (path_count x + dch_path_count next));
       nv \<leftarrow> nth_opt ch' (dch_v next);
       q2 \<leftarrow> gs_up_loop (\<ge>) ch' next (up_neighbors nv) q1;
       gs_dec_loop fuel ch' q2
         (C @ [((dch_v next, dch_w next), (dch_distance next, dch_path_count next))])
     }
     else gs_dec_loop fuel ch q1 C
   }"

definition GS_Dec :: "nat \<Rightarrow> ContractionHierarchy \<Rightarrow> update list \<Rightarrow> changed_edge list
    \<Rightarrow> (ContractionHierarchy \<times> changed_edge list) option" where
  "GS_Dec fuel ch updates C = do {
     q \<leftarrow> gs_dec_seed ch updates [];
     (ch', C') \<leftarrow> gs_dec_loop fuel ch q C;
     Some (ch', merge_edges C')
   }"

subsection \<open>GS_Inc\<close>

fun gs_inc_seed :: "ContractionHierarchy \<Rightarrow> update list \<Rightarrow> DCHSearchNode list
    \<Rightarrow> DCHSearchNode list option" where
  "gs_inc_seed ch [] q = Some q"
| "gs_inc_seed ch (((old_weight, new_weight), (a, b)) # updates) q = do {
     q' \<leftarrow> gs_push (=) ch a b old_weight 1 q;
     gs_inc_seed ch updates q'
   }"

text \<open>
  The loop over the common down-neighbours \<open>a\<close> of \<open>v\<close> and \<open>w\<close> that recomputes the
  shortcut from \<open>v\<close> to \<open>w\<close>; both lists are walked as if they were sorted.
\<close>

fun gs_inc_merge :: "NodeID \<Rightarrow> NodeID \<Rightarrow> NodeID list \<Rightarrow> NodeID list \<Rightarrow> ContractionHierarchy
    \<Rightarrow> ContractionHierarchy option" where
  "gs_inc_merge v w [] bs ch = Some ch"
| "gs_inc_merge v w (a # as) [] ch = Some ch"
| "gs_inc_merge v w (a # as) (b # bs) ch =
     (if a < b then gs_inc_merge v w as (b # bs) ch
      else if b < a then gs_inc_merge v w (a # as) bs ch
      else do {
        av \<leftarrow> UpNeighbor ch a v;
        aw \<leftarrow> UpNeighbor ch a w;
        x \<leftarrow> UpNeighbor ch v w;
        let dist = distance av + distance aw;
        let pc = path_count av * path_count aw;
        gs_inc_merge v w as bs
          (if dist < distance x then set_UpNeighbor ch v w dist pc
           else if dist = distance x then set_UpNeighbor ch v w (distance x) (path_count x + pc)
           else ch)
      })"

fun gs_inc_loop :: "nat \<Rightarrow> Graph \<Rightarrow> ContractionHierarchy \<Rightarrow> DCHSearchNode list \<Rightarrow> changed_edge list
    \<Rightarrow> (ContractionHierarchy \<times> changed_edge list) option" where
  "gs_inc_loop fuel g ch [] C = Some (ch, C)"
| "gs_inc_loop 0 g ch (e # q) C = None"
| "gs_inc_loop (Suc fuel) g ch (e # q) C = do {
     (next, q1) \<leftarrow> pq_pop (e # q);
     nv \<leftarrow> nth_opt ch (dch_v next);
     q2 \<leftarrow> gs_up_loop (=) ch next (up_neighbors nv) q1;
     x \<leftarrow> UpNeighbor ch (dch_v next) (dch_w next);
     ch' \<leftarrow>
       (if path_count x > dch_path_count next
        then Some (set_UpNeighbor ch (dch_v next) (dch_w next) (distance x)
                     (path_count x - dch_path_count next))
        else do {
          gv \<leftarrow> nth_opt (node_data g) (dch_v next);
          let d0 = (case find (\<lambda>n. node n = dch_w next) (neighbors gv) of
                      None \<Rightarrow> infinity | Some n \<Rightarrow> distance n);
          let ch1 = set_UpNeighbor ch (dch_v next) (dch_w next) d0 1;
          nv1 \<leftarrow> nth_opt ch1 (dch_v next);
          down_w \<leftarrow> (if down_neighbors nv1 = [] then Some []
                     else map_option down_neighbors (nth_opt ch1 (dch_w next)));
          gs_inc_merge (dch_v next) (dch_w next) (down_neighbors nv1) down_w ch1
        });
     gs_inc_loop fuel g ch' q2
       (C @ [((dch_v next, dch_w next), (dch_distance next, dch_path_count next))])
   }"

definition GS_Inc :: "nat \<Rightarrow> Graph \<Rightarrow> ContractionHierarchy \<Rightarrow> update list \<Rightarrow> changed_edge list
    \<Rightarrow> (ContractionHierarchy \<times> changed_edge list) option" where
  "GS_Inc fuel g ch updates C = do {
     q \<leftarrow> gs_inc_seed ch updates [];
     (ch', C') \<leftarrow> gs_inc_loop fuel g ch q C;
     Some (ch', merge_edges C')
   }"

subsection \<open>DCL_Dec and DCL_Inc\<close>

text \<open>
  \<^verbatim>\<open>DCL_Dec\<close> repairs the shortcut graph with \<^verbatim>\<open>GS_Dec\<close> and then the labels; it returns
  when the queue of label updates is empty.
\<close>

definition DCL_Dec :: "nat \<Rightarrow> ContractionHierarchy \<Rightarrow> ContractionIndex \<Rightarrow> update list
    \<Rightarrow> (ContractionHierarchy \<times> ContractionIndex) option" where
  "DCL_Dec fuel ch idx updates = do {
     (ch', C) \<leftarrow> GS_Dec fuel ch updates [];
     st \<leftarrow> DCL_Dec_labels fuel ch' idx C;
     if mbq_empty (dec_queue st) then Some (ch', dec_index st) else None
   }"

text \<open>Writing \<^verbatim>\<open>cv.distances()[i] = d\<close> and \<^verbatim>\<open>cv.paths()[i] = c\<close> for vertex \<open>v\<close>, one at a time.\<close>

definition set_label_distance :: "ContractionIndex \<Rightarrow> NodeID \<Rightarrow> nat \<Rightarrow> distance_t \<Rightarrow> ContractionIndex option" where
  "set_label_distance idx v i d = do {
     l \<leftarrow> nth_opt (labels idx) v;
     b \<leftarrow> deref (store idx) (cut_index l);
     if i < length (distances b)
     then Some (idx\<lparr>store := (store idx)[cut_index l - 1 := b\<lparr>distances := (distances b)[i := d]\<rparr>]\<rparr>)
     else None
   }"

definition set_label_paths :: "ContractionIndex \<Rightarrow> NodeID \<Rightarrow> nat \<Rightarrow> u16 \<Rightarrow> ContractionIndex option" where
  "set_label_paths idx v i c = do {
     l \<leftarrow> nth_opt (labels idx) v;
     b \<leftarrow> deref (store idx) (cut_index l);
     if i < length (paths b)
     then Some (idx\<lparr>store := (store idx)[cut_index l - 1 := b\<lparr>paths := (paths b)[i := c]\<rparr>]\<rparr>)
     else None
   }"

text \<open>The first phase of \<^verbatim>\<open>DCL_Inc\<close>.\<close>

fun inc_seed_loop :: "ContractionHierarchy \<Rightarrow> FlatData \<Rightarrow> FlatData \<Rightarrow> NodeID \<Rightarrow> distance_t \<Rightarrow> u16
    \<Rightarrow> nat list \<Rightarrow> ICHSearchNode min_bucket_queue \<Rightarrow> ICHSearchNode min_bucket_queue option" where
  "inc_seed_loop ch a b v d c [] q = Some q"
| "inc_seed_loop ch a b v d c (i # is) q = do {
     bd \<leftarrow> nth_opt (distances b) i;
     bp \<leftarrow> nth_opt (paths b) i;
     ad \<leftarrow> nth_opt (distances a) i;
     let dist = d + bd;
     if dist = ad
     then do {
       nv \<leftarrow> nth_opt ch v;
       inc_seed_loop ch a b v d c is
         (mbq_push \<lparr>ich_v = v, ich_i = i, ich_distance = dist, ich_path_count = c * bp\<rparr>
            (unat (ch_dist_index nv)) q)
     }
     else inc_seed_loop ch a b v d c is q
   }"

fun inc_seed :: "ContractionHierarchy \<Rightarrow> ContractionIndex \<Rightarrow> changed_edge list
    \<Rightarrow> ICHSearchNode min_bucket_queue \<Rightarrow> ICHSearchNode min_bucket_queue option" where
  "inc_seed ch idx [] q = Some q"
| "inc_seed ch idx (((v, w), (d, c)) # C) q = do {
     a \<leftarrow> label_block idx v;
     nw \<leftarrow> nth_opt ch w;
     ad \<leftarrow> nth_opt (distances a) (unat (ch_dist_index nw));
     if d = ad
     then do {
       b \<leftarrow> label_block idx w;
       q' \<leftarrow> inc_seed_loop ch a b v d c [0..<Suc (unat (ch_dist_index nw))] q;
       inc_seed ch idx C q'
     }
     else inc_seed ch idx C q
   }"

text \<open>The loop over the down-neighbours of the dequeued vertex.\<close>

fun inc_down_loop :: "ContractionHierarchy \<Rightarrow> ContractionIndex \<Rightarrow> ICHSearchNode \<Rightarrow> NodeID list
    \<Rightarrow> ICHSearchNode min_bucket_queue \<Rightarrow> ICHSearchNode min_bucket_queue option" where
  "inc_down_loop ch idx next [] q = Some q"
| "inc_down_loop ch idx next (u # us) q = do {
     x \<leftarrow> UpNeighbor ch u (ich_v next);
     cu \<leftarrow> label_block idx u;
     cv \<leftarrow> label_block idx (ich_v next);
     cvd \<leftarrow> nth_opt (distances cv) (ich_i next);
     let dist = distance x + cvd;
     cud \<leftarrow> nth_opt (distances cu) (ich_i next);
     if dist = cud
     then do {
       nu \<leftarrow> nth_opt ch u;
       inc_down_loop ch idx next us
         (mbq_push \<lparr>ich_v = u, ich_i = ich_i next, ich_distance = dist,
                    ich_path_count = path_count x * ich_path_count next\<rparr>
            (unat (ch_dist_index nu)) q)
     }
     else inc_down_loop ch idx next us q
   }"

text \<open>The loop over the up-neighbours that recomputes one entry of the label of \<open>v\<close>.\<close>

fun inc_up_loop :: "ContractionHierarchy \<Rightarrow> NodeID \<Rightarrow> nat \<Rightarrow> Neighbor list \<Rightarrow> ContractionIndex
    \<Rightarrow> ContractionIndex option" where
  "inc_up_loop ch v i [] idx = Some idx"
| "inc_up_loop ch v i (u # us) idx = do {
     nu \<leftarrow> nth_opt ch (node u);
     if unat (ch_dist_index nu) \<ge> i
     then do {
       x \<leftarrow> UpNeighbor ch v (node u);
       cu \<leftarrow> label_block idx (node u);
       cud \<leftarrow> nth_opt (distances cu) i;
       cup \<leftarrow> nth_opt (paths cu) i;
       let dist = distance x + cud;
       let pc = path_count x * cup;
       cv \<leftarrow> label_block idx v;
       cvd \<leftarrow> nth_opt (distances cv) i;
       if dist < cvd
       then do { idx' \<leftarrow> set_label idx v i dist pc; inc_up_loop ch v i us idx' }
       else if dist = cvd
       then do {
         cvp \<leftarrow> nth_opt (paths cv) i;
         idx' \<leftarrow> set_label_paths idx v i (cvp + pc);
         inc_up_loop ch v i us idx'
       }
       else inc_up_loop ch v i us idx
     }
     else inc_up_loop ch v i us idx
   }"

text \<open>
  The loop \<^verbatim>\<open>while (!q.empty())\<close> of \<^verbatim>\<open>DCL_Inc\<close>, for at most \<open>fuel\<close> iterations; \<open>None\<close>
  also stands for a run that needs more.
\<close>

fun inc_loop :: "nat \<Rightarrow> ContractionHierarchy \<Rightarrow> ICHSearchNode min_bucket_queue \<Rightarrow> ContractionIndex
    \<Rightarrow> ContractionIndex option" where
  "inc_loop fuel ch q idx =
     (if mbq_empty q then Some idx
      else (case fuel of
              0 \<Rightarrow> None
            | Suc fuel' \<Rightarrow> do {
                (next, q1) \<leftarrow> mbq_pop q;
                nv \<leftarrow> nth_opt ch (ich_v next);
                q2 \<leftarrow> inc_down_loop ch idx next (down_neighbors nv) q1;
                cv \<leftarrow> label_block idx (ich_v next);
                cvp \<leftarrow> nth_opt (paths cv) (ich_i next);
                idx' \<leftarrow>
                  (if cvp > ich_path_count next
                   then set_label_paths idx (ich_v next) (ich_i next) (cvp - ich_path_count next)
                   else do {
                     idx1 \<leftarrow> set_label_distance idx (ich_v next) (ich_i next) infinity;
                     inc_up_loop ch (ich_v next) (ich_i next) (up_neighbors nv) idx1
                   });
                inc_loop fuel' ch q2 idx'
              }))"

definition DCL_Inc :: "nat \<Rightarrow> Graph \<Rightarrow> ContractionHierarchy \<Rightarrow> ContractionIndex \<Rightarrow> update list
    \<Rightarrow> (ContractionHierarchy \<times> ContractionIndex) option" where
  "DCL_Inc fuel g ch idx updates = do {
     (ch', C) \<leftarrow> GS_Inc fuel g ch updates [];
     q \<leftarrow> inc_seed ch' idx C mbq_init;
     idx' \<leftarrow> inc_loop fuel ch' q idx;
     Some (ch', idx')
   }"

section \<open>Example data\<close>

text \<open>
  The path \<open>1 - 2 - 3 - 4\<close> with the extra leaf \<open>5 - 2\<close>, all weights 1: vertices 1 and
  5 are contracted onto vertex 2 and vertex 4 onto vertex 3. Vertex 2 is the top-level
  cut and vertex 3 is the level-1 cut below it.
\<close>

definition pendant_closest :: "Neighbor list" where
  "pendant_closest =
     [\<lparr>node = 0, distance = 0, path_count = 0\<rparr>,
      \<lparr>node = 2, distance = 1, path_count = 0\<rparr>,
      \<lparr>node = 2, distance = 0, path_count = 0\<rparr>,
      \<lparr>node = 3, distance = 0, path_count = 0\<rparr>,
      \<lparr>node = 3, distance = 1, path_count = 0\<rparr>,
      \<lparr>node = 2, distance = 1, path_count = 0\<rparr>]"

definition empty_ci :: CutIndex where
  "empty_ci = \<lparr>ci_partition = 0, ci_cut_level = 0, ci_dist_index = [], ci_distances = [], ci_paths = []\<rparr>"

definition pendant_ci :: "CutIndex list" where
  "pendant_ci =
     [empty_ci, empty_ci,
      \<lparr>ci_partition = 0, ci_cut_level = 0, ci_dist_index = [1], ci_distances = [0], ci_paths = [1]\<rparr>,
      \<lparr>ci_partition = 0, ci_cut_level = 1, ci_dist_index = [1, 2], ci_distances = [1, 0], ci_paths = [1, 1]\<rparr>,
      empty_ci, empty_ci]"

definition pendant_index :: ContractionIndex where
  "pendant_index =
     \<lparr>labels =
        [\<lparr>cut_index = 0, distance_offset = 0, parent = 0\<rparr>,
         \<lparr>cut_index = 1, distance_offset = 1, parent = 2\<rparr>,
         \<lparr>cut_index = 1, distance_offset = 0, parent = 0\<rparr>,
         \<lparr>cut_index = 2, distance_offset = 0, parent = 0\<rparr>,
         \<lparr>cut_index = 2, distance_offset = 1, parent = 3\<rparr>,
         \<lparr>cut_index = 1, distance_offset = 1, parent = 2\<rparr>],
      store =
        [\<lparr>partition_bitvector = 0, dist_index = [1], distances = [0], paths = [1]\<rparr>,
         \<lparr>partition_bitvector = 1, dist_index = [1, 2], distances = [1, 0], paths = [1, 1]\<rparr>]\<rparr>"

subsection \<open>What the specification says about the label query\<close>

text \<open>
  The data-model invariant of a label block: one \<^verbatim>\<open>dist_index\<close> entry per level up to
  the cut level, nondecreasing, and \<^verbatim>\<open>distances.size() == paths.size() == dist_index.back()\<close>.
\<close>

definition flat_consistent :: "FlatData \<Rightarrow> bool" where
  "flat_consistent a \<longleftrightarrow>
     length (dist_index a) = Suc (PBV_cut_level (partition_bitvector a))
     \<and> sorted (dist_index a)
     \<and> length (distances a) = unat (last (dist_index a))
     \<and> length (paths a) = length (distances a)"

text \<open>
  The meet level in the specification's words: the smaller of the two cut levels, lowered
  to the lowest bit position at which the two partitions differ.
\<close>

definition meet_level :: "FlatData \<Rightarrow> FlatData \<Rightarrow> nat" where
  "meet_level a b =
     (let l = min (PBV_cut_level (partition_bitvector a)) (PBV_cut_level (partition_bitvector b));
          pa = PBV_partition (partition_bitvector a);
          pb = PBV_partition (partition_bitvector b)
      in if pa = pb then l else min l (LEAST i. bit pa i \<noteq> bit pb i))"

text \<open>
  The minimum of the (32-bit) sums \<open>as[oa + i] + bs[ob + i]\<close> for \<open>i < n\<close>, and
  \<^verbatim>\<open>infinity\<close> when there is none. With \<open>oa = ob = 0\<close> this is the minimum over the
  parallel prefix of length \<open>n\<close>.
\<close>

definition range_min :: "distance_t list \<Rightarrow> distance_t list \<Rightarrow> nat \<Rightarrow> nat \<Rightarrow> nat \<Rightarrow> distance_t" where
  "range_min as bs oa ob n = Min (insert infinity ((\<lambda>i. as ! (oa + i) + bs ! (ob + i)) ` {..<n}))"

definition block_offset :: "FlatData \<Rightarrow> nat \<Rightarrow> nat" where
  "block_offset a l = (if l = 0 then 0 else unat (dist_index a ! (l - 1)))"

definition label_end :: "FlatData \<Rightarrow> nat \<Rightarrow> nat" where
  "label_end a l = unat (dist_index a ! l)"


text \<open>Two consistent label blocks that split at level 1 below a common top-level cut.\<close>

definition ex_a :: FlatData where
  "ex_a = \<lparr>partition_bitvector = 130, dist_index = [1, 2, 3], distances = [1, 10, 0], paths = [1, 1, 1]\<rparr>"

definition ex_b :: FlatData where
  "ex_b = \<lparr>partition_bitvector = 2, dist_index = [1, 2, 3], distances = [1, 10, 0], paths = [1, 1, 1]\<rparr>"

definition cfg_no_shortcuts :: build_config where
  "cfg_no_shortcuts = \<lparr>NO_SHORTCUTS = True, PRUNING = False, NDEBUG = True\<rparr>"

text \<open>A graph on three vertices and four calls of \<^verbatim>\<open>add_edge\<close>, three of them for the pair 1, 2.\<close>

definition ex_g0 :: Graph where
  "ex_g0 = \<lparr>node_data = replicate 6 \<lparr>nd_subgraph_id = 1, neighbors = []\<rparr>, nodes = [1, 2, 3], subgraph_id = 1\<rparr>"

definition ex_calls :: "(NodeID \<times> NodeID \<times> distance_t) list" where
  "ex_calls = [(1, 2, 5), (2, 1, 3), (1, 2, 7), (2, 3, 4)]"

definition ex_g :: Graph where
  "ex_g =
     \<lparr>node_data =
        [\<lparr>nd_subgraph_id = 1, neighbors = []\<rparr>,
         \<lparr>nd_subgraph_id = 1, neighbors = [\<lparr>node = 2, distance = 3, path_count = 0\<rparr>]\<rparr>,
         \<lparr>nd_subgraph_id = 1, neighbors = [\<lparr>node = 1, distance = 3, path_count = 0\<rparr>,
                                             \<lparr>node = 3, distance = 4, path_count = 0\<rparr>]\<rparr>,
         \<lparr>nd_subgraph_id = 1, neighbors = [\<lparr>node = 2, distance = 4, path_count = 0\<rparr>]\<rparr>,
         \<lparr>nd_subgraph_id = 1, neighbors = []\<rparr>,
         \<lparr>nd_subgraph_id = 1, neighbors = []\<rparr>],
      nodes = [1, 2, 3], subgraph_id = 1\<rparr>"

text \<open>
  The shortcut graph and the labels of the path \<open>1 - 2 - 3\<close> with weights 5 and 4, where
  vertex 1 is the top-level cut, after the weight of the edge \<open>1 - 2\<close> has gone down to 3
  and \<^verbatim>\<open>GS_Dec\<close> has reported the shortcut \<open>(2, 1)\<close> as changed.
\<close>

definition path_ch :: ContractionHierarchy where
  "path_ch =
     [\<lparr>ch_dist_index = 0, up_neighbors = [], down_neighbors = []\<rparr>,
      \<lparr>ch_dist_index = 0, up_neighbors = [], down_neighbors = [2]\<rparr>,
      \<lparr>ch_dist_index = 1, up_neighbors = [\<lparr>node = 1, distance = 3, path_count = 1\<rparr>],
        down_neighbors = [3]\<rparr>,
      \<lparr>ch_dist_index = 2, up_neighbors = [\<lparr>node = 2, distance = 4, path_count = 1\<rparr>],
        down_neighbors = []\<rparr>]"

definition path_labels :: "ContractionLabel list" where
  "path_labels =
     [\<lparr>cut_index = 0, distance_offset = 0, parent = 0\<rparr>,
      \<lparr>cut_index = 1, distance_offset = 0, parent = 0\<rparr>,
      \<lparr>cut_index = 2, distance_offset = 0, parent = 0\<rparr>,
      \<lparr>cut_index = 3, distance_offset = 0, parent = 0\<rparr>]"

definition path_index :: ContractionIndex where
  "path_index =
     \<lparr>labels = path_labels,
      store =
        [\<lparr>partition_bitvector = 0, dist_index = [1], distances = [0], paths = [1]\<rparr>,
         \<lparr>partition_bitvector = 1, dist_index = [1, 2], distances = [5, 0], paths = [1, 1]\<rparr>,
         \<lparr>partition_bitvector = 2, dist_index = [1, 2, 3], distances = [9, 4, 0], paths = [1, 1, 1]\<rparr>]\<rparr>"

definition path_changes :: "changed_edge list" where
  "path_changes = [((2, 1), (3, 1))]"

definition path_result :: dec_state where
  "path_result =
     \<lparr>dec_queue = \<lparr>buckets = [[], [], []], min_bucket = 3\<rparr>,
      dec_index =
        \<lparr>labels = path_labels,
         store =
           [\<lparr>partition_bitvector = 0, dist_index = [1], distances = [0], paths = [1]\<rparr>,
            \<lparr>partition_bitvector = 1, dist_index = [1, 2], distances = [3, 0], paths = [1, 1]\<rparr>,
            \<lparr>partition_bitvector = 2, dist_index = [1, 2, 3], distances = [7, 4, 0], paths = [1, 1, 1]\<rparr>]\<rparr>,
      dec_keys = [1, 2]\<rparr>"

text \<open>
  An input whose fourth line is an \<^verbatim>\<open>a\<close> line with a field that is not a number, and the
  graph that \<^verbatim>\<open>read_graph\<close> returns for it in a build with assertions.
\<close>

definition cfg_debug :: build_config where
  "cfg_debug = \<lparr>NO_SHORTCUTS = True, PRUNING = False, NDEBUG = False\<rparr>"






text \<open>
  A graph with the four edges \<open>1 - 2\<close>, \<open>1 - 3\<close>, \<open>2 - 4\<close>, \<open>3 - 4\<close> of weight 2, as
  \<^verbatim>\<open>read_graph\<close> stores it, with the labels of the cut hierarchy whose top cut is \<open>{2, 3}\<close>
  and whose two sides are \<open>{1}\<close> and \<open>{4}\<close>; no vertex is contracted.
\<close>

definition diamond_g :: Graph where
  "diamond_g =
     \<lparr>node_data =
        [\<lparr>nd_subgraph_id = 0, neighbors = []\<rparr>,
         \<lparr>nd_subgraph_id = 1, neighbors = [\<lparr>node = 2, distance = 2, path_count = 0\<rparr>,
                                             \<lparr>node = 3, distance = 2, path_count = 0\<rparr>]\<rparr>,
         \<lparr>nd_subgraph_id = 1, neighbors = [\<lparr>node = 1, distance = 2, path_count = 0\<rparr>,
                                             \<lparr>node = 4, distance = 2, path_count = 0\<rparr>]\<rparr>,
         \<lparr>nd_subgraph_id = 1, neighbors = [\<lparr>node = 1, distance = 2, path_count = 0\<rparr>,
                                             \<lparr>node = 4, distance = 2, path_count = 0\<rparr>]\<rparr>,
         \<lparr>nd_subgraph_id = 1, neighbors = [\<lparr>node = 2, distance = 2, path_count = 0\<rparr>,
                                             \<lparr>node = 3, distance = 2, path_count = 0\<rparr>]\<rparr>,
         \<lparr>nd_subgraph_id = 0, neighbors = []\<rparr>,
         \<lparr>nd_subgraph_id = 0, neighbors = []\<rparr>],
      nodes = [1, 2, 3, 4], subgraph_id = 1\<rparr>"

definition diamond_closest :: "Neighbor list" where
  "diamond_closest = map (\<lambda>v. \<lparr>node = v, distance = 0, path_count = 0\<rparr>) [0..<5]"

definition diamond_ci :: "CutIndex list" where
  "diamond_ci =
     [\<lparr>ci_partition = 0, ci_cut_level = 0, ci_dist_index = [], ci_distances = [], ci_paths = []\<rparr>,
      \<lparr>ci_partition = 0, ci_cut_level = 1, ci_dist_index = [2, 3], ci_distances = [], ci_paths = []\<rparr>,
      \<lparr>ci_partition = 0, ci_cut_level = 0, ci_dist_index = [1], ci_distances = [], ci_paths = []\<rparr>,
      \<lparr>ci_partition = 0, ci_cut_level = 0, ci_dist_index = [2], ci_distances = [], ci_paths = []\<rparr>,
      \<lparr>ci_partition = 1, ci_cut_level = 1, ci_dist_index = [2, 3], ci_distances = [], ci_paths = []\<rparr>]"

text \<open>The shortcut graph and the labels that \<^verbatim>\<open>create_sc_graph\<close> computes for it.\<close>

definition diamond_ch :: ContractionHierarchy where
  "diamond_ch =
     [\<lparr>ch_dist_index = 0, up_neighbors = [], down_neighbors = []\<rparr>,
      \<lparr>ch_dist_index = 2,
        up_neighbors = [\<lparr>node = 3, distance = 2, path_count = 1\<rparr>,
                        \<lparr>node = 2, distance = 2, path_count = 1\<rparr>],
        down_neighbors = []\<rparr>,
      \<lparr>ch_dist_index = 0, up_neighbors = [], down_neighbors = [1, 3, 4]\<rparr>,
      \<lparr>ch_dist_index = 1, up_neighbors = [\<lparr>node = 2, distance = 4, path_count = 2\<rparr>],
        down_neighbors = [1, 4]\<rparr>,
      \<lparr>ch_dist_index = 2,
        up_neighbors = [\<lparr>node = 3, distance = 2, path_count = 1\<rparr>,
                        \<lparr>node = 2, distance = 2, path_count = 1\<rparr>],
        down_neighbors = []\<rparr>]"

definition diamond_sc :: sc_state where
  "diamond_sc =
     \<lparr>sc_ch = diamond_ch,
      sc_ci =
        [\<lparr>ci_partition = 0, ci_cut_level = 0, ci_dist_index = [], ci_distances = [], ci_paths = []\<rparr>,
         \<lparr>ci_partition = 0, ci_cut_level = 1, ci_dist_index = [2, 3],
           ci_distances = [2, 2, 0], ci_paths = [1, 1, 1]\<rparr>,
         \<lparr>ci_partition = 0, ci_cut_level = 0, ci_dist_index = [1],
           ci_distances = [0], ci_paths = [1]\<rparr>,
         \<lparr>ci_partition = 0, ci_cut_level = 0, ci_dist_index = [2],
           ci_distances = [4, 0], ci_paths = [2, 1]\<rparr>,
         \<lparr>ci_partition = 1, ci_cut_level = 1, ci_dist_index = [2, 3],
           ci_distances = [2, 2, 0], ci_paths = [1, 1, 1]\<rparr>]\<rparr>"

text \<open>
  The index built from these labels, the same graph after the weight of the edge
  \<open>1 - 2\<close> has been raised to 3, and the two weight changes of that edge (to 1 and to 3).
\<close>

definition diamond_index :: ContractionIndex where
  "diamond_index =
     \<lparr>labels = [\<lparr>cut_index = 0, distance_offset = 0, parent = NO_NODE\<rparr>,
                \<lparr>cut_index = 1, distance_offset = 0, parent = NO_NODE\<rparr>,
                \<lparr>cut_index = 2, distance_offset = 0, parent = NO_NODE\<rparr>,
                \<lparr>cut_index = 3, distance_offset = 0, parent = NO_NODE\<rparr>,
                \<lparr>cut_index = 4, distance_offset = 0, parent = NO_NODE\<rparr>],
      store =
        [\<lparr>partition_bitvector = 1, dist_index = [2, 3], distances = [2, 2, 0], paths = [1, 1, 1]\<rparr>,
         \<lparr>partition_bitvector = 0, dist_index = [1], distances = [0], paths = [1]\<rparr>,
         \<lparr>partition_bitvector = 0, dist_index = [2], distances = [4, 0], paths = [2, 1]\<rparr>,
         \<lparr>partition_bitvector = 65, dist_index = [2, 3], distances = [2, 2, 0], paths = [1, 1, 1]\<rparr>]\<rparr>"

definition diamond_g_inc :: Graph where
  "diamond_g_inc =
     \<lparr>node_data =
        [\<lparr>nd_subgraph_id = 0, neighbors = []\<rparr>,
         \<lparr>nd_subgraph_id = 1, neighbors = [\<lparr>node = 2, distance = 3, path_count = 0\<rparr>,
                                             \<lparr>node = 3, distance = 2, path_count = 0\<rparr>]\<rparr>,
         \<lparr>nd_subgraph_id = 1, neighbors = [\<lparr>node = 1, distance = 3, path_count = 0\<rparr>,
                                             \<lparr>node = 4, distance = 2, path_count = 0\<rparr>]\<rparr>,
         \<lparr>nd_subgraph_id = 1, neighbors = [\<lparr>node = 1, distance = 2, path_count = 0\<rparr>,
                                             \<lparr>node = 4, distance = 2, path_count = 0\<rparr>]\<rparr>,
         \<lparr>nd_subgraph_id = 1, neighbors = [\<lparr>node = 2, distance = 2, path_count = 0\<rparr>,
                                             \<lparr>node = 3, distance = 2, path_count = 0\<rparr>]\<rparr>,
         \<lparr>nd_subgraph_id = 0, neighbors = []\<rparr>,
         \<lparr>nd_subgraph_id = 0, neighbors = []\<rparr>],
      nodes = [1, 2, 3, 4], subgraph_id = 1\<rparr>"

definition diamond_dec :: "update list" where
  "diamond_dec = [((2, 1), (1, 2))]"

definition diamond_inc :: "update list" where
  "diamond_inc = [((2, 3), (1, 2))]"

text \<open>
  The path \<open>1 - 2 - 3\<close> with both weights 5: the vertices 1 and 3 are contracted onto
  vertex 2, the only core vertex, whose label has the single \<^verbatim>\<open>dist_index\<close> entry 0.
  \<open>tree_ci0\<close> are the labels before \<^verbatim>\<open>create_sc_graph\<close> and \<open>tree_ci\<close> after it: the
  \<^verbatim>\<open>dist_index\<close> \<open>0 - 1\<close> wraps to 65535, so the label arrays get 65536 entries.
  \<open>tree_index\<close> is the index that the constructor builds from them.
\<close>

definition tree_g :: Graph where
  "tree_g =
     \<lparr>node_data =
        [\<lparr>nd_subgraph_id = 0, neighbors = []\<rparr>,
         \<lparr>nd_subgraph_id = 1, neighbors = [\<lparr>node = 2, distance = 5, path_count = 0\<rparr>]\<rparr>,
         \<lparr>nd_subgraph_id = 1, neighbors = [\<lparr>node = 1, distance = 5, path_count = 0\<rparr>,
                                             \<lparr>node = 3, distance = 5, path_count = 0\<rparr>]\<rparr>,
         \<lparr>nd_subgraph_id = 1, neighbors = [\<lparr>node = 2, distance = 5, path_count = 0\<rparr>]\<rparr>,
         \<lparr>nd_subgraph_id = 0, neighbors = []\<rparr>,
         \<lparr>nd_subgraph_id = 0, neighbors = []\<rparr>],
      nodes = [1, 2, 3], subgraph_id = 1\<rparr>"

definition tree_closest :: "Neighbor list" where
  "tree_closest =
     [\<lparr>node = 0, distance = 0, path_count = 0\<rparr>,
      \<lparr>node = 2, distance = 5, path_count = 0\<rparr>,
      \<lparr>node = 2, distance = 0, path_count = 0\<rparr>,
      \<lparr>node = 2, distance = 5, path_count = 0\<rparr>]"

definition tree_ci0 :: "CutIndex list" where
  "tree_ci0 =
     [empty_ci, empty_ci,
      \<lparr>ci_partition = 0, ci_cut_level = 0, ci_dist_index = [0], ci_distances = [], ci_paths = []\<rparr>,
      empty_ci]"

definition tree_ci :: "CutIndex list" where
  "tree_ci =
     [empty_ci, empty_ci,
      \<lparr>ci_partition = 0, ci_cut_level = 0, ci_dist_index = [0],
        ci_distances = replicate 65535 infinity @ [0], ci_paths = replicate 65535 0 @ [1]\<rparr>,
      empty_ci]"

definition tree_index :: ContractionIndex where
  "tree_index =
     \<lparr>labels =
        [\<lparr>cut_index = 0, distance_offset = 0, parent = 0\<rparr>,
         \<lparr>cut_index = 1, distance_offset = 5, parent = 2\<rparr>,
         \<lparr>cut_index = 1, distance_offset = 0, parent = 0\<rparr>,
         \<lparr>cut_index = 1, distance_offset = 5, parent = 2\<rparr>],
      store =
        [\<lparr>partition_bitvector = 0, dist_index = [0], distances = [],
          paths = replicate 65535 0 @ [1]\<rparr>]\<rparr>"

text \<open>
  Two inputs with an isolated vertex whose id is smaller than that of another vertex:
  an edge between the vertices 1 and 3 of three, and a cycle on the vertices 2 to 5 of
  five. The graphs are what \<^verbatim>\<open>read_graph\<close> returns for them.
\<close>

definition gap_input :: string where
  "gap_input = ''p sp 3 1'' @ [CHR 0x0A] @ ''a 1 3 5'' @ [CHR 0x0A]"

definition gap_graph :: Graph where
  "gap_graph =
     \<lparr>node_data =
        [\<lparr>nd_subgraph_id = 0, neighbors = []\<rparr>,
         \<lparr>nd_subgraph_id = 1, neighbors = [\<lparr>node = 3, distance = 5, path_count = 0\<rparr>]\<rparr>,
         \<lparr>nd_subgraph_id = 0, neighbors = []\<rparr>,
         \<lparr>nd_subgraph_id = 1, neighbors = [\<lparr>node = 1, distance = 5, path_count = 0\<rparr>]\<rparr>,
         \<lparr>nd_subgraph_id = 0, neighbors = []\<rparr>,
         \<lparr>nd_subgraph_id = 0, neighbors = []\<rparr>],
      nodes = [1, 3], subgraph_id = 1\<rparr>"

definition cycle_input :: string where
  "cycle_input = ''p sp 5 4'' @ [CHR 0x0A] @ ''a 2 3 1'' @ [CHR 0x0A] @ ''a 3 4 1'' @ [CHR 0x0A]
     @ ''a 4 5 1'' @ [CHR 0x0A] @ ''a 5 2 1'' @ [CHR 0x0A]"

definition cycle_graph :: Graph where
  "cycle_graph =
     \<lparr>node_data =
        [\<lparr>nd_subgraph_id = 0, neighbors = []\<rparr>,
         \<lparr>nd_subgraph_id = 0, neighbors = []\<rparr>,
         \<lparr>nd_subgraph_id = 1, neighbors = [\<lparr>node = 3, distance = 1, path_count = 0\<rparr>,
                                             \<lparr>node = 5, distance = 1, path_count = 0\<rparr>]\<rparr>,
         \<lparr>nd_subgraph_id = 1, neighbors = [\<lparr>node = 2, distance = 1, path_count = 0\<rparr>,
                                             \<lparr>node = 4, distance = 1, path_count = 0\<rparr>]\<rparr>,
         \<lparr>nd_subgraph_id = 1, neighbors = [\<lparr>node = 3, distance = 1, path_count = 0\<rparr>,
                                             \<lparr>node = 5, distance = 1, path_count = 0\<rparr>]\<rparr>,
         \<lparr>nd_subgraph_id = 1, neighbors = [\<lparr>node = 4, distance = 1, path_count = 0\<rparr>,
                                             \<lparr>node = 2, distance = 1, path_count = 0\<rparr>]\<rparr>,
         \<lparr>nd_subgraph_id = 0, neighbors = []\<rparr>,
         \<lparr>nd_subgraph_id = 0, neighbors = []\<rparr>],
      nodes = [2, 3, 4, 5], subgraph_id = 1\<rparr>"

text \<open>
  A graph on five vertices in which the edge \<open>1 - 2\<close> has weight \<open>w\<close>, the edges \<open>1 - 3\<close>
  and \<open>2 - 3\<close> weight 6 and the edges \<open>1 - 4\<close>, \<open>2 - 4\<close>, \<open>1 - 5\<close>, \<open>3 - 5\<close> weight 10,
  with the labels of the cut hierarchy whose top cut is \<open>{1, 2}\<close>, with the sides
  \<open>{3, 5}\<close> and \<open>{4}\<close>, and in which vertex 3 is the cut of \<open>{3, 5}\<close>. No vertex is
  contracted. \<open>kite_sc\<close> is the shortcut graph and the labels of the build with threads
  for \<open>w = 10\<close>, \<open>kite_index\<close> the index made from them, and \<open>kite_inc\<close> the change of
  the weight of \<open>1 - 2\<close> from 10 to 15. In \<open>kite_ch_43\<close> the vertices 3 and 4, which have
  the same \<^verbatim>\<open>dist_index\<close>, were processed in the other order.
\<close>

definition kite_input :: string where
  "kite_input = ''p sp 5 7'' @ [CHR 0x0A] @ ''a 1 2 10'' @ [CHR 0x0A] @ ''a 1 3 6'' @ [CHR 0x0A]
     @ ''a 2 3 6'' @ [CHR 0x0A] @ ''a 1 4 10'' @ [CHR 0x0A] @ ''a 2 4 10'' @ [CHR 0x0A]
     @ ''a 1 5 10'' @ [CHR 0x0A] @ ''a 3 5 10'' @ [CHR 0x0A]"

definition kite_g :: "distance_t \<Rightarrow> Graph" where
  "kite_g w =
     \<lparr>node_data =
        [\<lparr>nd_subgraph_id = 0, neighbors = []\<rparr>,
         \<lparr>nd_subgraph_id = 1, neighbors = [\<lparr>node = 2, distance = w, path_count = 0\<rparr>,
                                             \<lparr>node = 3, distance = 6, path_count = 0\<rparr>,
                                             \<lparr>node = 4, distance = 10, path_count = 0\<rparr>,
                                             \<lparr>node = 5, distance = 10, path_count = 0\<rparr>]\<rparr>,
         \<lparr>nd_subgraph_id = 1, neighbors = [\<lparr>node = 1, distance = w, path_count = 0\<rparr>,
                                             \<lparr>node = 3, distance = 6, path_count = 0\<rparr>,
                                             \<lparr>node = 4, distance = 10, path_count = 0\<rparr>]\<rparr>,
         \<lparr>nd_subgraph_id = 1, neighbors = [\<lparr>node = 1, distance = 6, path_count = 0\<rparr>,
                                             \<lparr>node = 2, distance = 6, path_count = 0\<rparr>,
                                             \<lparr>node = 5, distance = 10, path_count = 0\<rparr>]\<rparr>,
         \<lparr>nd_subgraph_id = 1, neighbors = [\<lparr>node = 1, distance = 10, path_count = 0\<rparr>,
                                             \<lparr>node = 2, distance = 10, path_count = 0\<rparr>]\<rparr>,
         \<lparr>nd_subgraph_id = 1, neighbors = [\<lparr>node = 1, distance = 10, path_count = 0\<rparr>,
                                             \<lparr>node = 3, distance = 10, path_count = 0\<rparr>]\<rparr>,
         \<lparr>nd_subgraph_id = 0, neighbors = []\<rparr>,
         \<lparr>nd_subgraph_id = 0, neighbors = []\<rparr>],
      nodes = [1, 2, 3, 4, 5], subgraph_id = 1\<rparr>"

definition kite_closest :: "Neighbor list" where
  "kite_closest =
     [\<lparr>node = 0, distance = 0, path_count = 0\<rparr>,
      \<lparr>node = 1, distance = 0, path_count = 0\<rparr>,
      \<lparr>node = 2, distance = 0, path_count = 0\<rparr>,
      \<lparr>node = 3, distance = 0, path_count = 0\<rparr>,
      \<lparr>node = 4, distance = 0, path_count = 0\<rparr>,
      \<lparr>node = 5, distance = 0, path_count = 0\<rparr>]"

definition kite_ci :: "CutIndex list" where
  "kite_ci =
     [empty_ci,
      \<lparr>ci_partition = 0, ci_cut_level = 0, ci_dist_index = [1], ci_distances = [], ci_paths = []\<rparr>,
      \<lparr>ci_partition = 0, ci_cut_level = 0, ci_dist_index = [2], ci_distances = [], ci_paths = []\<rparr>,
      \<lparr>ci_partition = 0, ci_cut_level = 1, ci_dist_index = [2, 3], ci_distances = [], ci_paths = []\<rparr>,
      \<lparr>ci_partition = 1, ci_cut_level = 1, ci_dist_index = [2, 3], ci_distances = [], ci_paths = []\<rparr>,
      \<lparr>ci_partition = 0, ci_cut_level = 2, ci_dist_index = [2, 3, 4], ci_distances = [], ci_paths = []\<rparr>]"

definition kite_ch :: ContractionHierarchy where
  "kite_ch =
     [\<lparr>ch_dist_index = 0, up_neighbors = [], down_neighbors = []\<rparr>,
      \<lparr>ch_dist_index = 0, up_neighbors = [], down_neighbors = [5, 3, 4, 2]\<rparr>,
      \<lparr>ch_dist_index = 1, up_neighbors = [\<lparr>node = 1, distance = 10, path_count = 1\<rparr>],
        down_neighbors = [3, 4]\<rparr>,
      \<lparr>ch_dist_index = 2,
        up_neighbors = [\<lparr>node = 2, distance = 6, path_count = 1\<rparr>,
                        \<lparr>node = 1, distance = 6, path_count = 1\<rparr>],
        down_neighbors = [5]\<rparr>,
      \<lparr>ch_dist_index = 2,
        up_neighbors = [\<lparr>node = 2, distance = 10, path_count = 1\<rparr>,
                        \<lparr>node = 1, distance = 10, path_count = 1\<rparr>],
        down_neighbors = []\<rparr>,
      \<lparr>ch_dist_index = 3,
        up_neighbors = [\<lparr>node = 3, distance = 10, path_count = 1\<rparr>,
                        \<lparr>node = 1, distance = 10, path_count = 1\<rparr>],
        down_neighbors = []\<rparr>]"

definition kite_ch_43 :: ContractionHierarchy where
  "kite_ch_43 =
     kite_ch[1 := (kite_ch ! 1)\<lparr>down_neighbors := [5, 4, 3, 2]\<rparr>,
             2 := (kite_ch ! 2)\<lparr>down_neighbors := [4, 3]\<rparr>]"

definition kite_sc :: sc_state where
  "kite_sc =
     \<lparr>sc_ch = kite_ch,
      sc_ci =
        [empty_ci,
         \<lparr>ci_partition = 0, ci_cut_level = 0, ci_dist_index = [1],
           ci_distances = [0], ci_paths = [1]\<rparr>,
         \<lparr>ci_partition = 0, ci_cut_level = 0, ci_dist_index = [2],
           ci_distances = [10, 0], ci_paths = [1, 1]\<rparr>,
         \<lparr>ci_partition = 0, ci_cut_level = 1, ci_dist_index = [2, 3],
           ci_distances = [6, 6, 0], ci_paths = [1, 1, 1]\<rparr>,
         \<lparr>ci_partition = 1, ci_cut_level = 1, ci_dist_index = [2, 3],
           ci_distances = [10, 10, 0], ci_paths = [1, 1, 1]\<rparr>,
         \<lparr>ci_partition = 0, ci_cut_level = 2, ci_dist_index = [2, 3, 4],
           ci_distances = [10, 16, 10, 0], ci_paths = [1, 1, 1, 1]\<rparr>]\<rparr>"

definition kite_index :: ContractionIndex where
  "kite_index =
     \<lparr>labels = [\<lparr>cut_index = 0, distance_offset = 0, parent = NO_NODE\<rparr>,
                \<lparr>cut_index = 1, distance_offset = 0, parent = NO_NODE\<rparr>,
                \<lparr>cut_index = 2, distance_offset = 0, parent = NO_NODE\<rparr>,
                \<lparr>cut_index = 3, distance_offset = 0, parent = NO_NODE\<rparr>,
                \<lparr>cut_index = 4, distance_offset = 0, parent = NO_NODE\<rparr>,
                \<lparr>cut_index = 5, distance_offset = 0, parent = NO_NODE\<rparr>],
      store =
        [\<lparr>partition_bitvector = 0, dist_index = [1], distances = [0], paths = [1]\<rparr>,
         \<lparr>partition_bitvector = 0, dist_index = [2], distances = [10, 0], paths = [1, 1]\<rparr>,
         \<lparr>partition_bitvector = 1, dist_index = [2, 3], distances = [6, 6, 0], paths = [1, 1, 1]\<rparr>,
         \<lparr>partition_bitvector = 65, dist_index = [2, 3], distances = [10, 10, 0], paths = [1, 1, 1]\<rparr>,
         \<lparr>partition_bitvector = 2, dist_index = [2, 3, 4], distances = [10, 16, 10, 0],
           paths = [1, 1, 1, 1]\<rparr>]\<rparr>"

definition kite_inc :: "update list" where
  "kite_inc = [((10, 15), (1, 2))]"

section \<open>Properties of the queries\<close>

subsection \<open>The range scanned by the distance query\<close>

lemma Min_insert_insert:
  fixes a b :: "'a::linorder"
  assumes "finite S"
  shows "Min (insert a (insert b S)) = Min (insert (min a b) S)"
proof (cases "S = {}")
  case True
  then show ?thesis by (simp add: min.commute)
next
  case False
  with assms show ?thesis by (simp add: min.assoc)
qed

lemma min_dist_loop_Min:
  "n \<le> length as \<Longrightarrow> n \<le> length bs \<Longrightarrow>
   min_dist_loop n as bs m = Some (Min (insert m ((\<lambda>i. as ! i + bs ! i) ` {..<n})))"
proof (induction n arbitrary: as bs m)
  case 0
  then show ?case by simp
next
  case (Suc n)
  then obtain x as' y bs' where eq: "as = x # as'" "bs = y # bs'"
    by (cases as; cases bs) auto
  have img: "(\<lambda>i. as ! i + bs ! i) ` {..<Suc n} = insert (x + y) ((\<lambda>i. as' ! i + bs' ! i) ` {..<n})"
    unfolding lessThan_Suc_eq_insert_0 by (simp add: eq image_image)
  have m: "(if x + y < m then x + y else m) = min m (x + y)"
    by (auto simp: min_def)
  from Suc.prems eq have len: "n \<le> length as'" "n \<le> length bs'" by simp_all
  show ?case
    unfolding img
    by (simp add: eq Suc.IH [OF len] m Min_insert_insert del: Min_insert)
qed

lemma ctzll_Least:
  assumes "x \<noteq> 0"
  shows "ctzll x = (LEAST i. bit x i)"
proof -
  from assms obtain j where j: "bit x j"
    by (auto simp: bit_eq_iff)
  define k where "k = (LEAST i. bit x i)"
  have bk: "bit x k" unfolding k_def using j by (rule LeastI)
  have lt: "\<And>i. i < k \<Longrightarrow> \<not> bit x i" unfolding k_def by (rule not_less_Least)
  from bk have k64: "k < 64" by (auto dest: bit_imp_le_length)
  have "takeWhile (\<lambda>i. \<not> bit x i) [0..<64] = take k [0..<64]"
    by (rule takeWhile_eq_take_P_nth) (use k64 bk lt in auto)
  then show ?thesis using k64 by (simp add: ctzll_def k_def)
qed

lemma min_dist_loop_comm: "min_dist_loop n a b m = min_dist_loop n b a m"
  by (induction n a b m rule: min_dist_loop.induct) (auto simp: add.commute Let_def)

lemma paths_loop_comm: "paths_loop n a b x y m s = paths_loop n b a y x m s"
  by (induction n a b x y m s rule: paths_loop.induct) (auto simp: add.commute mult.commute Let_def)

lemma lca_level_comm: "lca_level x y = lca_level y x"
  by (simp add: lca_level_def Let_def min.commute xor.commute eq_commute)

lemma get_cut_level_distance_comm: "get_cut_level_distance a b cl = get_cut_level_distance b a cl"
  unfolding get_cut_level_distance_def
  by (cases "get_offset (dist_index a) cl"; cases "get_offset (dist_index b) cl";
      cases "nth_opt (dist_index a) cl"; cases "nth_opt (dist_index b) cl")
     (simp_all add: min.commute min_dist_loop_comm Let_def)

lemma pruning_loop_comm: "pruning_loop a b cls m = pruning_loop b a cls m"
  by (induction cls arbitrary: m) (simp_all add: get_cut_level_distance_comm)

lemma get_distance_flat_comm: "get_distance_flat cfg a b = get_distance_flat cfg b a"
  unfolding get_distance_flat_def Let_def lca_level_comm [of "partition_bitvector a"]
  by (cases "nth_opt (dist_index a) (lca_level (partition_bitvector b) (partition_bitvector a))";
      cases "nth_opt (dist_index b) (lca_level (partition_bitvector b) (partition_bitvector a))")
     (simp_all add: pruning_loop_comm get_cut_level_distance_comm min_dist_loop_comm min.commute)

lemma get_paths_comm: "get_paths a b = get_paths b a"
  unfolding get_paths_def Let_def lca_level_comm [of "partition_bitvector a"]
  by (cases "nth_opt (dist_index a) (lca_level (partition_bitvector b) (partition_bitvector a))";
      cases "nth_opt (dist_index b) (lca_level (partition_bitvector b) (partition_bitvector a))")
     (simp_all add: paths_loop_comm min.commute)


lemma lca_level_meet: "lca_level (partition_bitvector a) (partition_bitvector b) = meet_level a b"
proof -
  let ?pa = "PBV_partition (partition_bitvector a)" and ?pb = "PBV_partition (partition_bitvector b)"
  have "ctzll (?pa XOR ?pb) = (LEAST i. bit ?pa i \<noteq> bit ?pb i)" if "?pa \<noteq> ?pb"
  proof -
    have "?pa XOR ?pb \<noteq> 0"
    proof
      assume "?pa XOR ?pb = 0"
      then have "(?pa XOR ?pb) XOR ?pb = ?pb" by simp
      then have "?pa = ?pb" by (simp add: xor.assoc)
      with that show False by simp
    qed
    then have "ctzll (?pa XOR ?pb) = (LEAST i. bit (?pa XOR ?pb) i)" by (rule ctzll_Least)
    then show ?thesis by (simp add: bit_xor_iff)
  qed
  then show ?thesis
    by (cases "?pa = ?pb") (simp_all add: lca_level_def meet_level_def Let_def min_def)
qed

lemma meet_level_le:
  "meet_level a b \<le> PBV_cut_level (partition_bitvector a)"
  "meet_level a b \<le> PBV_cut_level (partition_bitvector b)"
proof -
  let ?l = "min (PBV_cut_level (partition_bitvector a)) (PBV_cut_level (partition_bitvector b))"
  have "min ?l x \<le> ?l" for x by (rule min.cobounded1)
  then have "meet_level a b \<le> ?l"
    unfolding meet_level_def Let_def by (cases "PBV_partition (partition_bitvector a) = PBV_partition (partition_bitvector b)") simp_all
  then show "meet_level a b \<le> PBV_cut_level (partition_bitvector a)"
    and "meet_level a b \<le> PBV_cut_level (partition_bitvector b)" by simp_all
qed

lemma flat_consistent_bounds:
  assumes "flat_consistent a" and "l \<le> PBV_cut_level (partition_bitvector a)"
  shows "l < length (dist_index a)"
    and "label_end a l \<le> length (distances a)"
    and "block_offset a l \<le> label_end a l"
proof -
  from assms show l: "l < length (dist_index a)" by (simp add: flat_consistent_def)
  then have ne: "dist_index a \<noteq> []" by auto
  from assms have s: "sorted (dist_index a)" by (simp add: flat_consistent_def)
  have "dist_index a ! l \<le> dist_index a ! (length (dist_index a) - 1)"
    using s l by (intro sorted_nth_mono) auto
  then have "dist_index a ! l \<le> last (dist_index a)" using ne by (simp add: last_conv_nth)
  then show "label_end a l \<le> length (distances a)"
    using assms by (simp add: flat_consistent_def label_end_def word_le_nat_alt)
  show "block_offset a l \<le> label_end a l"
  proof (cases "l = 0")
    case True
    then show ?thesis by (simp add: block_offset_def)
  next
    case False
    then have "dist_index a ! (l - 1) \<le> dist_index a ! l"
      using s l by (intro sorted_nth_mono) auto
    with False show ?thesis by (simp add: block_offset_def label_end_def word_le_nat_alt)
  qed
qed

lemma get_cut_level_distance_range:
  assumes "l < length (dist_index a)" and "l < length (dist_index b)"
    and "label_end a l \<le> length (distances a)" and "label_end b l \<le> length (distances b)"
    and "block_offset a l \<le> label_end a l" and "block_offset b l \<le> label_end b l"
  shows "get_cut_level_distance a b l =
         Some (range_min (distances a) (distances b) (block_offset a l) (block_offset b l)
                (min (label_end a l - block_offset a l) (label_end b l - block_offset b l)))"
proof -
  define oa ob ea eb where "oa = block_offset a l" and "ob = block_offset b l"
    and "ea = label_end a l" and "eb = label_end b l"
  define n where "n = min (ea - oa) (eb - ob)"
  have "\<exists>w. get_offset (dist_index a) l = Some w \<and> unat w = oa"
    using assms(1) by (cases "l = 0") (simp_all add: get_offset_def nth_opt_def block_offset_def oa_def)
  then obtain wa where wa: "get_offset (dist_index a) l = Some wa" "unat wa = oa"
    by blast
  have "\<exists>w. get_offset (dist_index b) l = Some w \<and> unat w = ob"
    using assms(2) by (cases "l = 0") (simp_all add: get_offset_def nth_opt_def block_offset_def ob_def)
  then obtain wb where wb: "get_offset (dist_index b) l = Some wb" "unat wb = ob"
    by blast
  have da: "nth_opt (dist_index a) l = Some (dist_index a ! l)" "unat (dist_index a ! l) = ea"
    using assms(1) by (simp_all add: nth_opt_def ea_def label_end_def)
  have db: "nth_opt (dist_index b) l = Some (dist_index b ! l)" "unat (dist_index b ! l) = eb"
    using assms(2) by (simp_all add: nth_opt_def eb_def label_end_def)
  have le: "oa \<le> ea" "ob \<le> eb" "ea \<le> length (distances a)" "eb \<le> length (distances b)"
    using assms(3-6) by (simp_all add: oa_def ob_def ea_def eb_def)
  have ia: "uint (dist_index a ! l) - uint wa = int (ea - oa)"
    using le(1) by (simp add: uint_nat da(2) wa(2) of_nat_diff)
  have ib: "uint (dist_index b ! l) - uint wb = int (eb - ob)"
    using le(2) by (simp add: uint_nat db(2) wb(2) of_nat_diff)
  have n: "min (uint (dist_index a ! l) - uint wa) (uint (dist_index b ! l) - uint wb) = int n"
    unfolding ia ib n_def by (simp add: min_def)
  have la: "n \<le> length (drop oa (distances a))" and lb: "n \<le> length (drop ob (distances b))"
    using le by (simp_all add: n_def)
  have img: "(\<lambda>i. drop oa (distances a) ! i + drop ob (distances b) ! i) ` {..<n}
             = (\<lambda>i. distances a ! (oa + i) + distances b ! (ob + i)) ` {..<n}"
    using le by (intro image_cong) (auto simp: n_def)
  have "get_cut_level_distance a b l
        = min_dist_loop n (drop oa (distances a)) (drop ob (distances b)) infinity"
    unfolding get_cut_level_distance_def by (simp add: wa wb da(1) db(1) n Let_def)
  also have "\<dots> = Some (range_min (distances a) (distances b) oa ob n)"
    unfolding min_dist_loop_Min [OF la lb] img range_min_def ..
  finally show ?thesis
    unfolding n_def oa_def ob_def ea_def eb_def .
qed


text \<open>
  Claim C10. When the labels of two vertices \<open>v\<close> and \<open>w\<close> point to the same (non-null)
  label block, \<^verbatim>\<open>get_spc(v, w)\<close> returns 1. The result does not depend on what the store
  holds (no path-count label is read) nor on the distance offsets and parents of the two
  labels, which the hypotheses leave arbitrary.
\<close>

theorem get_spc_same_block:
  assumes "v < length (labels idx)" and "w < length (labels idx)"
    and "cut_index (labels idx ! v) = cut_index (labels idx ! w)"
    and "cut_index (labels idx ! v) \<noteq> 0"
  shows "get_spc cfg (idx\<lparr>store := st\<rparr>) v w = Some 1"
  using assms by (simp add: get_spc_def nth_opt_def)

theorem get_spc_same_block_witness:
  "(1::nat) < length (labels pendant_index) \<and> (5::nat) < length (labels pendant_index)
   \<and> cut_index (labels pendant_index ! 1) = cut_index (labels pendant_index ! 5)
   \<and> cut_index (labels pendant_index ! 1) \<noteq> 0
   \<and> get_spc \<lparr>NO_SHORTCUTS = True, PRUNING = False, NDEBUG = False\<rparr>
        (pendant_index\<lparr>store := []\<rparr>) 1 5 = Some 1"
proof -
  have a: "(1::nat) < length (labels pendant_index)" "(5::nat) < length (labels pendant_index)"
    by (simp_all add: pendant_index_def)
  have b: "cut_index (labels pendant_index ! 1) = cut_index (labels pendant_index ! 5)"
    by (simp add: pendant_index_def)
  have c: "cut_index (labels pendant_index ! 1) \<noteq> 0"
    by (simp add: pendant_index_def)
  from get_spc_same_block [OF a b c] a b c show ?thesis by blast
qed

subsection \<open>Claim C4\<close>

text \<open>
  Without \<^verbatim>\<open>NO_SHORTCUTS\<close> the query on two blocks is \<^verbatim>\<open>get_cut_level_distance\<close> at the
  meet level: it reads the block of that level only, which starts at \<open>dist_index[l - 1]\<close>
  (at 0 for level 0).
\<close>

lemma get_distance_flat_block:
  assumes "flat_consistent a" and "flat_consistent b" and "\<not> NO_SHORTCUTS cfg"
  shows "get_distance_flat cfg a b =
      Some (range_min (distances a) (distances b)
             (block_offset a (meet_level a b)) (block_offset b (meet_level a b))
             (min (label_end a (meet_level a b) - block_offset a (meet_level a b))
                  (label_end b (meet_level a b) - block_offset b (meet_level a b))))"
proof -
  note ba = flat_consistent_bounds [OF assms(1) meet_level_le(1) [of a b]]
  note bb = flat_consistent_bounds [OF assms(2) meet_level_le(2) [of a b]]
  from assms(3) show ?thesis
    by (simp add: get_distance_flat_def lca_level_meet Let_def
        get_cut_level_distance_range [OF ba(1) bb(1) ba(2) bb(2) ba(3) bb(3)])
qed

text \<open>
  Claim C4. For two consistent label blocks, the level computed by \<^verbatim>\<open>PBV::lca_level\<close> is
  the meet level of the specification, and in the build with \<^verbatim>\<open>NO_SHORTCUTS\<close> and without
  \<^verbatim>\<open>PRUNING\<close> (where it scans the range that \<^verbatim>\<open>get_paths\<close> scans in every build) the
  distance query returns the minimum of
  \<open>a.distances[i] + b.distances[i]\<close> over the whole parallel prefix
  \<open>i < min(a.dist_index[l], b.dist_index[l])\<close>, and \<^verbatim>\<open>infinity\<close> when the prefix is empty.
\<close>

theorem get_distance_flat_range:
  assumes "flat_consistent a" and "flat_consistent b"
    and "NO_SHORTCUTS cfg" and "\<not> PRUNING cfg"
  shows "lca_level (partition_bitvector a) (partition_bitvector b) = meet_level a b
    \<and> get_distance_flat cfg a b =
         Some (range_min (distances a) (distances b) 0 0
                (min (label_end a (meet_level a b)) (label_end b (meet_level a b))))"
proof -
  let ?l = "meet_level a b"
  note ba = flat_consistent_bounds [OF assms(1) meet_level_le(1) [of a b]]
  note bb = flat_consistent_bounds [OF assms(2) meet_level_le(2) [of a b]]
  have min_eq: "unat (min (dist_index a ! ?l) (dist_index b ! ?l)) = min (label_end a ?l) (label_end b ?l)"
    by (simp add: label_end_def min_def word_le_nat_alt)
  have la: "min (label_end a ?l) (label_end b ?l) \<le> length (distances a)"
    and lb: "min (label_end a ?l) (label_end b ?l) \<le> length (distances b)"
    using ba(2) bb(2) by simp_all
  have "get_distance_flat cfg a b =
      Some (range_min (distances a) (distances b) 0 0 (min (label_end a ?l) (label_end b ?l)))"
    using assms(3,4) ba(1) bb(1)
    by (simp add: get_distance_flat_def lca_level_meet nth_opt_def min_eq Let_def
        min_dist_loop_Min [OF la lb] range_min_def del: Min_insert)
  then show ?thesis by (simp add: lca_level_meet)
qed

theorem get_distance_flat_range_witness:
  "flat_consistent ex_a \<and> flat_consistent ex_b
   \<and> NO_SHORTCUTS cfg_no_shortcuts \<and> \<not> PRUNING cfg_no_shortcuts
   \<and> meet_level ex_a ex_b = 1
   \<and> min (label_end ex_a 1) (label_end ex_b 1) = 2
   \<and> distances ex_a ! 0 + distances ex_b ! 0 = 2
   \<and> distances ex_a ! 1 + distances ex_b ! 1 = 20
   \<and> get_distance_flat cfg_no_shortcuts ex_a ex_b = Some 2"
proof -
  have ca: "flat_consistent ex_a" and cb: "flat_consistent ex_b"
    by code_simp+
  have lca: "lca_level (partition_bitvector ex_a) (partition_bitvector ex_b) = 1"
    by code_simp
  have c1: "NO_SHORTCUTS cfg_no_shortcuts" and c2: "\<not> PRUNING cfg_no_shortcuts"
    by (simp_all add: cfg_no_shortcuts_def)
  from get_distance_flat_range [OF ca cb c1 c2] lca
  have l: "meet_level ex_a ex_b = 1"
    and p: "get_distance_flat cfg_no_shortcuts ex_a ex_b =
      Some (range_min (distances ex_a) (distances ex_b) 0 0 (min (label_end ex_a 1) (label_end ex_b 1)))"
    by simp_all
  have two: "{..<2::nat} = {0, 1}" by auto
  have e: "min (label_end ex_a 1) (label_end ex_b 1) = 2"
    by (simp add: label_end_def ex_a_def ex_b_def)
  have "range_min (distances ex_a) (distances ex_b) 0 0 2 = 2"
    by (simp add: range_min_def ex_a_def ex_b_def two infinity_def)
  with ca cb c1 c2 l p e show ?thesis by (simp add: ex_a_def ex_b_def)
qed

subsection \<open>Symmetry of the queries\<close>

lemma find_root_stop: "nth_opt closest r = Some c \<Longrightarrow> node c = r \<Longrightarrow> find_root closest r d = Some (r, d)"
  by (subst find_root.simps) simp

lemma find_root_step: "nth_opt closest r = Some c \<Longrightarrow> node c \<noteq> r \<Longrightarrow>
   find_root closest r d = find_root closest (node c) (d + distance c)"
  by (subst find_root.simps) simp

lemma lca_loop_sym_aux:
  assumes "lca_loop ls v w cv cw = Some r"
  shows "nth_opt ls v = Some cv \<longrightarrow> nth_opt ls w = Some cw \<longrightarrow> lca_loop ls w v cw cv = Some r"
proof (rule lca_loop.raw_induct [where P = "\<lambda>ls v w cv cw r.
      nth_opt ls v = Some cv \<longrightarrow> nth_opt ls w = Some cw \<longrightarrow> lca_loop ls w v cw cv = Some r",
      rotated, OF assms])
  fix f ls v w cv cw r
  assume IH: "\<And>ls v w cv cw r. f ls v w cv cw = Some r \<Longrightarrow>
      nth_opt ls v = Some cv \<longrightarrow> nth_opt ls w = Some cw \<longrightarrow> lca_loop ls w v cw cv = Some r"
    and body: "(if v \<noteq> w
      then if distance_offset cv < distance_offset cw
           then nth_opt ls (parent cw) \<bind> f ls v (parent cw) cv
           else if distance_offset cw < distance_offset cv
                then nth_opt ls (parent cv) \<bind> (\<lambda>cv'. f ls (parent cv) w cv' cw)
                else nth_opt ls (parent cv) \<bind>
                     (\<lambda>cv'. nth_opt ls (parent cw) \<bind> f ls (parent cv) (parent cw) cv')
      else Some cv) = Some r"
  show "nth_opt ls v = Some cv \<longrightarrow> nth_opt ls w = Some cw \<longrightarrow> lca_loop ls w v cw cv = Some r"
  proof (intro impI)
    assume v: "nth_opt ls v = Some cv" and w: "nth_opt ls w = Some cw"
    consider (eq) "v = w" | (lt) "v \<noteq> w" "distance_offset cv < distance_offset cw"
      | (gt) "v \<noteq> w" "distance_offset cw < distance_offset cv"
      | (same) "v \<noteq> w" "distance_offset cv = distance_offset cw"
      by fastforce
    then show "lca_loop ls w v cw cv = Some r"
    proof cases
      case eq
      with body v w show ?thesis by (subst lca_loop.simps) simp
    next
      case lt
      with body obtain cw' where c: "nth_opt ls (parent cw) = Some cw'" "f ls v (parent cw) cv cw' = Some r"
        by (auto simp: bind_eq_Some_conv)
      from IH [OF c(2)] v c(1) have "lca_loop ls (parent cw) v cw' cv = Some r" by simp
      with lt c(1) show ?thesis by (subst lca_loop.simps) auto
    next
      case gt
      then have "\<not> distance_offset cv < distance_offset cw" by simp
      with gt body obtain cv' where c: "nth_opt ls (parent cv) = Some cv'" "f ls (parent cv) w cv' cw = Some r"
        by (auto simp: bind_eq_Some_conv)
      from IH [OF c(2)] w c(1) have "lca_loop ls w (parent cv) cw cv' = Some r" by simp
      with gt c(1) show ?thesis by (subst lca_loop.simps) auto
    next
      case same
      with body obtain cv' cw' where c: "nth_opt ls (parent cv) = Some cv'"
        "nth_opt ls (parent cw) = Some cw'" "f ls (parent cv) (parent cw) cv' cw' = Some r"
        by (auto simp: bind_eq_Some_conv)
      from IH [OF c(3)] c(1,2) have "lca_loop ls (parent cw) (parent cv) cw' cv' = Some r" by simp
      with same c(1,2) show ?thesis by (subst lca_loop.simps) auto
    qed
  qed
qed

lemma lca_loop_sym:
  assumes "nth_opt ls v = Some cv" and "nth_opt ls w = Some cw"
  shows "lca_loop ls v w cv cw = lca_loop ls w v cw cv"
proof (cases "lca_loop ls v w cv cw")
  case None
  show ?thesis
  proof (cases "lca_loop ls w v cw cv")
    case None
    with \<open>lca_loop ls v w cv cw = None\<close> show ?thesis by simp
  next
    case (Some r)
    from lca_loop_sym_aux [OF Some] assms have "lca_loop ls v w cv cw = Some r" by simp
    with None show ?thesis by simp
  qed
next
  case (Some r)
  from lca_loop_sym_aux [OF Some] assms show ?thesis using Some by simp
qed

lemma find_root_two_cycle:
  assumes "nth_opt closest v = Some cv" and "node cv = w"
    and "nth_opt closest w = Some cw" and "node cw = v" and "v \<noteq> w"
  shows "find_root closest w d = None"
proof (rule ccontr)
  assume "find_root closest w d \<noteq> None"
  then obtain r where r: "find_root closest w d = Some r" by auto
  have "closest = closest \<longrightarrow> w \<noteq> v \<and> w \<noteq> w"
  proof (rule find_root.raw_induct [where P = "\<lambda>cl root root_dist res. cl = closest \<longrightarrow> root \<noteq> v \<and> root \<noteq> w",
        rotated, OF r])
    fix f cl root root_dist res
    assume IH: "\<And>cl root root_dist res. f cl root root_dist = Some res \<Longrightarrow> cl = closest \<longrightarrow> root \<noteq> v \<and> root \<noteq> w"
      and body: "nth_opt cl root \<bind> (\<lambda>c. if node c \<noteq> root then f cl (node c) (root_dist + distance c)
          else Some (root, root_dist)) = Some res"
    show "cl = closest \<longrightarrow> root \<noteq> v \<and> root \<noteq> w"
    proof (intro impI conjI notI)
      assume cl: "cl = closest" and "root = v"
      with body assms have "f closest w (root_dist + distance cv) = Some res" by simp
      from IH [OF this] show False by simp
    next
      assume cl: "cl = closest" and "root = w"
      with body assms have "f closest v (root_dist + distance cw) = Some res" by simp
      from IH [OF this] show False by simp
    qed
  qed
  then show False by simp
qed


lemma core_loop_chain_ok:
  "core_loop cfg ci closest ns idx = Some idx' \<Longrightarrow> chain_ok closest (labels idx)
   \<Longrightarrow> chain_ok closest (labels idx')"
proof (induction ns arbitrary: idx)
  case Nil
  then show ?case by simp
next
  case (Cons n ns)
  from Cons.prems(1) obtain c cn where c: "nth_opt closest n = Some c" "nth_opt ci n = Some cn"
    by (auto simp: bind_eq_Some_conv)
  show ?case
  proof (cases "node c = n")
    case False
    with Cons c show ?thesis by simp
  next
    case True
    with Cons.prems(1) c obtain l fd where l: "nth_opt (labels idx) n = Some l"
      and rec: "core_loop cfg ci closest ns
         \<lparr>labels = (labels idx)[n := l\<lparr>cut_index := Suc (length (store idx))\<rparr>],
          store = store idx @ [fd]\<rparr> = Some idx'"
      by (auto simp: bind_eq_Some_conv split: if_splits)
    from l have ln: "n < length (labels idx)" "l = labels idx ! n"
      by (auto simp: nth_opt_def split: if_splits)
    have "chain_ok closest ((labels idx)[n := l\<lparr>cut_index := Suc (length (store idx))\<rparr>])"
      using Cons.prems(2) ln unfolding chain_ok_def
      by (auto simp: nth_list_update)
    with Cons.IH [OF rec] show ?thesis by simp
  qed
qed

lemma peripheral_loop_chain_ok:
  "peripheral_loop cfg closest ns idx = Some idx' \<Longrightarrow> chain_ok closest (labels idx)
   \<Longrightarrow> chain_ok closest (labels idx')"
proof (induction ns arbitrary: idx)
  case Nil
  then show ?case by simp
next
  case (Cons n ns)
  from Cons.prems(1) obtain c where c: "nth_opt closest n = Some c"
    by (auto simp: bind_eq_Some_conv)
  then have cn: "n < length closest" "c = closest ! n"
    by (auto simp: nth_opt_def split: if_splits)
  show ?case
  proof (cases "node c \<noteq> n \<and> node c \<noteq> NO_NODE")
    case False
    with Cons c show ?thesis by auto
  next
    case True
    with Cons.prems(1) c have "\<exists>root root_dist k.
        find_root closest (node c) (distance c) = Some (root, root_dist)
        \<and> n < length (labels idx)
        \<and> peripheral_loop cfg closest ns
            (idx\<lparr>labels := (labels idx)[n :=
               \<lparr>cut_index = k, distance_offset = root_dist, parent = node c\<rparr>]\<rparr>) = Some idx'"
      by (auto simp: bind_eq_Some_conv split: if_splits)
    then obtain root root_dist k
      where fr: "find_root closest (node c) (distance c) = Some (root, root_dist)"
        and n: "n < length (labels idx)"
        and rec: "peripheral_loop cfg closest ns
            (idx\<lparr>labels := (labels idx)[n :=
               \<lparr>cut_index = k, distance_offset = root_dist, parent = node c\<rparr>]\<rparr>) = Some idx'"
      by blast
    have "chain_ok closest ((labels idx)[n :=
               \<lparr>cut_index = k, distance_offset = root_dist, parent = node c\<rparr>])"
      using Cons.prems(2) n cn fr unfolding chain_ok_def
      by (auto simp: nth_list_update)
    with Cons.IH [OF rec] show ?thesis by simp
  qed
qed

lemma ContractionIndex_of_chain_ok:
  assumes "ContractionIndex_of cfg ci closest = Some idx"
  shows "chain_ok closest (labels idx)"
proof -
  from assms obtain idx1 where
    1: "core_loop cfg ci closest [1..<length closest]
          \<lparr>labels = replicate (length ci) \<lparr>cut_index = 0, distance_offset = 0, parent = NO_NODE\<rparr>,
           store = []\<rparr> = Some idx1"
    and 2: "peripheral_loop cfg closest [1..<length closest] idx1 = Some idx"
    by (auto simp: ContractionIndex_of_def bind_eq_Some_conv split: if_splits)
  have "chain_ok closest (replicate (length ci) \<lparr>cut_index = 0, distance_offset = 0, parent = NO_NODE\<rparr>)"
    by (simp add: chain_ok_def)
  with core_loop_chain_ok [OF 1] have "chain_ok closest (labels idx1)" by simp
  with peripheral_loop_chain_ok [OF 2] show ?thesis .
qed

lemma chain_ok_no_mutual_parents:
  assumes "chain_ok closest ls" and "v < length ls" and "w < length ls" and "v \<noteq> w"
    and "distance_offset (ls ! v) \<noteq> 0" and "distance_offset (ls ! w) \<noteq> 0"
  shows "\<not> (parent (ls ! v) = w \<and> parent (ls ! w) = v)"
proof
  assume m: "parent (ls ! v) = w \<and> parent (ls ! w) = v"
  from assms(1,2,5) have v: "v < length closest" "parent (ls ! v) = node (closest ! v)"
    "find_root closest (node (closest ! v)) (distance (closest ! v)) \<noteq> None"
    unfolding chain_ok_def by blast+
  from assms(1,3,6) have w: "w < length closest" "parent (ls ! w) = node (closest ! w)"
    unfolding chain_ok_def by blast+
  have "find_root closest w (distance (closest ! v)) = None"
    by (rule find_root_two_cycle [of closest v "closest ! v" w "closest ! w"])
       (use v w m assms(4) in \<open>simp_all add: nth_opt_def\<close>)
  with v m show False by simp
qed

lemma get_spc_sym: "get_spc cfg idx v w = get_spc cfg idx w v"
proof (cases "v < length (labels idx) \<and> w < length (labels idx)")
  case False
  then show ?thesis by (auto simp: get_spc_def nth_opt_def)
next
  case True
  then show ?thesis
    by (cases "deref (store idx) (cut_index (labels idx ! v))";
        cases "deref (store idx) (cut_index (labels idx ! w))")
       (auto simp: get_spc_def nth_opt_def get_paths_comm)
qed

lemma get_distance_sym:
  assumes "\<lbrakk>v < length (labels idx); w < length (labels idx); v \<noteq> w;
            distance_offset (labels idx ! v) \<noteq> 0; distance_offset (labels idx ! w) \<noteq> 0\<rbrakk>
           \<Longrightarrow> \<not> (parent (labels idx ! v) = w \<and> parent (labels idx ! w) = v)"
  shows "get_distance cfg idx v w = get_distance cfg idx w v"
proof (cases "v < length (labels idx) \<and> w < length (labels idx)")
  case False
  then show ?thesis by (auto simp: get_distance_def nth_opt_def)
next
  case True
  define cv cw where "cv = labels idx ! v" and "cw = labels idx ! w"
  from True have nv: "nth_opt (labels idx) v = Some cv" and nw: "nth_opt (labels idx) w = Some cw"
    by (simp_all add: nth_opt_def cv_def cw_def)
  show ?thesis
  proof (cases "cut_index cv = cut_index cw")
    case False
    then show ?thesis
      by (cases "deref (store idx) (cut_index cv)"; cases "deref (store idx) (cut_index cw)")
         (auto simp: get_distance_def nv nw get_distance_flat_comm add.commute)
  next
    case same: True
    show ?thesis
    proof (cases "v = w \<or> distance_offset cv = 0 \<or> distance_offset cw = 0")
      case True
      with same show ?thesis by (auto simp: get_distance_def nv nw)
    next
      case False
      with assms True have nm: "\<not> (parent cv = w \<and> parent cw = v)"
        by (simp add: cv_def cw_def)
      have l: "lca_loop (labels idx) v w cv cw = lca_loop (labels idx) w v cw cv"
        by (rule lca_loop_sym [OF nv nw])
      have "get_distance cfg idx v w =
          (if \<not> NDEBUG cfg \<and> (cut_index cv = 0 \<or> cut_index cw = 0) then None
           else if parent cv = w then Some (distance_offset cv - distance_offset cw)
           else if parent cw = v then Some (distance_offset cw - distance_offset cv)
           else lca_loop (labels idx) v w cv cw \<bind> (\<lambda>cv_anc.
             Some (distance_offset cv + distance_offset cw - 2 * distance_offset cv_anc)))"
        using False same by (simp add: get_distance_def nv nw)
      moreover have "get_distance cfg idx w v =
          (if \<not> NDEBUG cfg \<and> (cut_index cw = 0 \<or> cut_index cv = 0) then None
           else if parent cw = v then Some (distance_offset cw - distance_offset cv)
           else if parent cv = w then Some (distance_offset cv - distance_offset cw)
           else lca_loop (labels idx) w v cw cv \<bind> (\<lambda>cv_anc.
             Some (distance_offset cw + distance_offset cv - 2 * distance_offset cv_anc)))"
        using False same by (simp add: get_distance_def nv nw eq_commute [of v w])
      ultimately show ?thesis using nm l by (auto simp: add.commute)
    qed
  qed
qed

lemma lca_loop_step_eq:
  "v \<noteq> w \<Longrightarrow> distance_offset cv = distance_offset cw \<Longrightarrow> nth_opt ls (parent cv) = Some cv'
   \<Longrightarrow> nth_opt ls (parent cw) = Some cw'
   \<Longrightarrow> lca_loop ls v w cv cw = lca_loop ls (parent cv) (parent cw) cv' cw'"
  by (subst lca_loop.simps) simp

lemma lca_loop_stop: "lca_loop ls v v cv cw = Some cv"
  by (subst lca_loop.simps) simp

text \<open>
  Claim C7. On every index that the constructor \<^verbatim>\<open>ContractionIndex(ci, closest)\<close> returns,
  \<^verbatim>\<open>get_distance\<close> and \<^verbatim>\<open>get_spc\<close> give the same result (or both no result) for \<open>(v, w)\<close>
  and \<open>(w, v)\<close>, for all vertices, contracted or not.
\<close>

theorem queries_symmetric:
  assumes "ContractionIndex_of cfg ci closest = Some idx"
  shows "get_distance cfg idx v w = get_distance cfg idx w v
       \<and> get_spc cfg idx v w = get_spc cfg idx w v"
proof -
  have "chain_ok closest (labels idx)"
    using assms by (rule ContractionIndex_of_chain_ok)
  then have "get_distance cfg idx v w = get_distance cfg idx w v"
    by (intro get_distance_sym chain_ok_no_mutual_parents)
  then show ?thesis by (simp add: get_spc_sym)
qed

lemma unat_minus_one_u16: "unat (- 1 :: 16 word) = 65535"
  by (simp add: unsigned_minus_1_eq_mask mask_eq_exp_minus_1)

lemma create_sc_graph_tree:
  "map_option sc_ci (create_sc_graph tree_g [] tree_ci0 tree_closest) = Some tree_ci"
  by (simp add: create_sc_graph_def tree_g_def tree_ci0_def tree_ci_def tree_closest_def
      nth_opt_def vec_resize_def default_CHNode_def empty_ci_def sort_by_def make_set_def
      di_order_def di_of_def Let_def infinity_def unat_minus_one_u16)

theorem queries_symmetric_witness:
  "ContractionIndex_of cfg_no_shortcuts pendant_ci pendant_closest = Some pendant_index
   \<and> get_distance cfg_no_shortcuts pendant_index 5 4 = Some 3
   \<and> get_distance cfg_no_shortcuts pendant_index 4 5 = Some 3
   \<and> get_spc cfg_no_shortcuts pendant_index 5 4 = Some 1
   \<and> get_spc cfg_no_shortcuts pendant_index 4 5 = Some 1
   \<and> get_distance cfg_no_shortcuts pendant_index 1 5 = Some 2
   \<and> get_distance cfg_no_shortcuts pendant_index 5 1 = Some 2
   \<and> map_option sc_ci (create_sc_graph tree_g [] tree_ci0 tree_closest) = Some tree_ci
   \<and> ContractionIndex_of cfg_debug tree_ci tree_closest = Some tree_index
   \<and> get_distance cfg_debug tree_index 1 3 = Some 10
   \<and> get_distance cfg_debug tree_index 3 1 = Some 10
   \<and> get_spc cfg_debug tree_index 1 3 = Some 1
   \<and> get_spc cfg_debug tree_index 3 1 = Some 1"
proof -
  have b: "ContractionIndex_of cfg_no_shortcuts pendant_ci pendant_closest = Some pendant_index"
    by (simp add: ContractionIndex_of_def pendant_ci_def pendant_closest_def pendant_index_def
        cfg_no_shortcuts_def nth_opt_def upt_rec [of _ 6] find_root_stop find_root_step
        FlatCutIndex_of_def PBV_from_def empty_ci_def NO_NODE_def aligned_def)
  have d: "get_distance cfg_no_shortcuts pendant_index 5 4 = Some 3"
    and s: "get_spc cfg_no_shortcuts pendant_index 5 4 = Some 1"
    by code_simp+
  have t: "get_distance cfg_no_shortcuts pendant_index 1 5 = Some 2"
    by (simp add: get_distance_def pendant_index_def nth_opt_def cfg_no_shortcuts_def
        lca_loop_step_eq [where cv' = "\<lparr>cut_index = 1, distance_offset = 0, parent = 0\<rparr>"
          and cw' = "\<lparr>cut_index = 1, distance_offset = 0, parent = 0\<rparr>"] lca_loop_stop)
  have tb: "ContractionIndex_of cfg_debug tree_ci tree_closest = Some tree_index"
    by (simp add: ContractionIndex_of_def tree_ci_def tree_closest_def tree_index_def
        cfg_debug_def nth_opt_def upt_rec [of _ 4] find_root_stop find_root_step
        FlatCutIndex_of_def PBV_from_def empty_ci_def NO_NODE_def aligned_def
        is_consistent_def MAX_CUT_LEVEL_def)
  have td: "get_distance cfg_debug tree_index 1 3 = Some 10"
    by (simp add: get_distance_def tree_index_def nth_opt_def cfg_debug_def
        lca_loop_step_eq [where cv' = "\<lparr>cut_index = 1, distance_offset = 0, parent = 0\<rparr>"
          and cw' = "\<lparr>cut_index = 1, distance_offset = 0, parent = 0\<rparr>"] lca_loop_stop)
  have ts: "get_spc cfg_debug tree_index 1 3 = Some 1"
    by (simp add: get_spc_def tree_index_def nth_opt_def cfg_debug_def)
  from queries_symmetric [OF b, of 5 4] queries_symmetric [OF b, of 1 5]
    queries_symmetric [OF tb, of 1 3] b d s t tb td ts create_sc_graph_tree
  show ?thesis by simp
qed

section \<open>Properties of the graph store\<close>

lemma weight_of_simps [simp]:
  "weight_of [] x = None"
  "weight_of (n # ns) x = (if node n = x then Some (distance n) else weight_of ns x)"
  by (auto simp: weight_of_def)

lemma weight_of_append [simp]:
  "weight_of (ns @ ms) x = (case weight_of ns x of None \<Rightarrow> weight_of ms x | Some d \<Rightarrow> Some d)"
  by (induction ns) auto

lemma weight_of_None_iff: "weight_of ns x = None \<longleftrightarrow> x \<notin> node ` set ns"
  by (induction ns) auto

lemma add_edge_loop_spec:
  "add_edge_loop ns w d = (e, ns') \<Longrightarrow>
     e = (w \<in> node ` set ns) \<and> map node ns' = map node ns
     \<and> (\<forall>x. weight_of ns' x =
           (if x = w \<and> e then Some (min (the (weight_of ns w)) d) else weight_of ns x))"
proof (induction ns arbitrary: e ns')
  case Nil
  then show ?case by simp
next
  case (Cons n ns)
  show ?case
  proof (cases "node n = w")
    case True
    with Cons.prems show ?thesis by auto
  next
    case False
    obtain e1 ns1 where r: "add_edge_loop ns w d = (e1, ns1)" by (cases "add_edge_loop ns w d")
    with Cons.prems False have e: "e = e1" "ns' = n # ns1" by auto
    from Cons.IH [OF r] False e show ?thesis by auto
  qed
qed

lemma add_edge_dir_spec:
  assumes "add_edge_dir cfg g v w d = Some g'"
  shows "v < length (node_data g)"
    and "length (node_data g') = length (node_data g)"
    and "\<And>u. u \<noteq> v \<Longrightarrow> node_data g' ! u = node_data g ! u"
    and "map node (neighbors (node_data g' ! v)) =
           map node (neighbors (node_data g ! v)) @
           (if w \<in> node ` set (neighbors (node_data g ! v)) then [] else [w])"
    and "\<And>x. weight_of (neighbors (node_data g' ! v)) x =
           (if x = w then Some (case weight_of (neighbors (node_data g ! v)) w of
                                  None \<Rightarrow> d | Some d0 \<Rightarrow> min d0 d)
            else weight_of (neighbors (node_data g ! v)) x)"
proof -
  from assms show v: "v < length (node_data g)"
    by (auto simp: add_edge_dir_def split: if_splits)
  obtain e ns where r: "add_edge_loop (neighbors (node_data g ! v)) w d = (e, ns)"
    by (cases "add_edge_loop (neighbors (node_data g ! v)) w d")
  note sp = add_edge_loop_spec [OF r]
  from assms r v have g': "g' = g\<lparr>node_data := (node_data g)[v := (node_data g ! v)
       \<lparr>neighbors := (if \<not> e then ns @ [\<lparr>node = w, distance = d, path_count = 0\<rparr>] else ns)\<rparr>]\<rparr>"
    by (auto simp: add_edge_dir_def Let_def split: if_splits)
  show "length (node_data g') = length (node_data g)" by (simp add: g')
  show "node_data g' ! u = node_data g ! u" if "u \<noteq> v" for u using that by (simp add: g')
  show "map node (neighbors (node_data g' ! v)) =
           map node (neighbors (node_data g ! v)) @
           (if w \<in> node ` set (neighbors (node_data g ! v)) then [] else [w])"
    using sp v by (simp add: g')
  show "weight_of (neighbors (node_data g' ! v)) x =
           (if x = w then Some (case weight_of (neighbors (node_data g ! v)) w of
                                  None \<Rightarrow> d | Some d0 \<Rightarrow> min d0 d)
            else weight_of (neighbors (node_data g ! v)) x)" for x
  proof (cases e)
    case True
    then have "weight_of (neighbors (node_data g ! v)) w \<noteq> None"
      using sp by (simp add: weight_of_None_iff)
    with True sp v show ?thesis by (auto simp: g')
  next
    case False
    then have "weight_of (neighbors (node_data g ! v)) w = None"
      using sp by (simp add: weight_of_None_iff)
    with False sp v show ?thesis by (auto simp: g' split: option.splits)
  qed
qed

lemma finite_pair_weights [simp]: "finite (pair_weights calls u v)"
proof -
  have "pair_weights calls u v \<subseteq> (\<lambda>(a, b, d). d) ` set calls"
    by (force simp: pair_weights_def)
  then show ?thesis by (rule finite_subset) simp
qed

lemma pair_weights_snoc:
  "pair_weights (calls @ [(a, b, d)]) u v =
     (if (u = a \<and> v = b) \<or> (u = b \<and> v = a) then insert d (pair_weights calls u v)
      else pair_weights calls u v)"
  by (auto simp: pair_weights_def)

lemma Min_insert_if:
  "finite S \<Longrightarrow> Min (insert (d::distance_t) S) = (if S = {} then d else min (Min S) d)"
  by (auto simp: min.commute)


lemma distinct_snoc_if:
  "distinct xs \<Longrightarrow> distinct (xs @ (if w \<in> set xs then [] else [w]))"
  by simp

lemma add_edge_dir_adjacency:
  assumes inv: "distinct (map node (neighbors (node_data g ! v)))"
    and w: "weight_of (neighbors (node_data g ! v)) w = (if S = {} then None else Some (Min S))"
    and fin: "finite S"
    and step: "add_edge_dir cfg g v w d = Some g'"
  shows "distinct (map node (neighbors (node_data g' ! v)))"
    and "weight_of (neighbors (node_data g' ! v)) w = Some (Min (insert d S))"
proof -
  note sp = add_edge_dir_spec [OF step]
  have "distinct (map node (neighbors (node_data g ! v)) @
          (if w \<in> set (map node (neighbors (node_data g ! v))) then [] else [w]))"
    using inv by (rule distinct_snoc_if)
  then show "distinct (map node (neighbors (node_data g' ! v)))"
    by (simp add: sp(4))
  show "weight_of (neighbors (node_data g' ! v)) w = Some (Min (insert d S))"
    using fin by (simp add: sp(5) w Min_insert_if del: Min_insert)
qed

lemma add_edge_adjacency_ok:
  assumes inv: "adjacency_ok g calls" and step: "add_edge cfg g a b d True = Some g'"
  shows "adjacency_ok g' (calls @ [(a, b, d)])"
proof -
  from step obtain g1 where 1: "add_edge_dir cfg g a b d = Some g1"
    and 2: "add_edge_dir cfg g1 b a d = Some g'"
    by (auto simp: add_edge_def bind_eq_Some_conv)
  note s1 = add_edge_dir_spec [OF 1] and s2 = add_edge_dir_spec [OF 2]
  let ?N = "\<lambda>g u. neighbors (node_data g ! u)"
  let ?pw = "pair_weights calls" and ?pw' = "pair_weights (calls @ [(a, b, d)])"
  have I: "\<And>u. u < length (node_data g) \<Longrightarrow> distinct (map node (?N g u))"
    and W: "\<And>u v. u < length (node_data g) \<Longrightarrow>
          weight_of (?N g u) v = (if ?pw u v = {} then None else Some (Min (?pw u v)))"
    using inv unfolding adjacency_ok_def by blast+
  have a1: "distinct (map node (?N g1 a))" "weight_of (?N g1 a) b = Some (Min (insert d (?pw a b)))"
    using add_edge_dir_adjacency [OF I [OF s1(1)] W [OF s1(1)] finite_pair_weights 1] by simp_all
  have o1: "weight_of (?N g1 a) x = weight_of (?N g a) x" if "x \<noteq> b" for x
    using that by (simp add: s1(5))
  have b_lt: "b < length (node_data g)" using s2(1) s1(2) by simp
  have W1b: "weight_of (?N g1 b) a = (if insert d (?pw a b) = {} \<or> a \<noteq> b \<and> ?pw b a = {} then None
               else Some (Min (if a = b then insert d (?pw a b) else ?pw b a)))"
    using a1(2) W [OF b_lt, of a] s1(3) [of b] by (cases "a = b") auto
  show ?thesis
    unfolding adjacency_ok_def
  proof (intro allI impI conjI)
    fix u assume "u < length (node_data g')"
    then have u: "u < length (node_data g)" by (simp add: s1(2) s2(2))
    show "distinct (map node (?N g' u))"
    proof (cases "u = b")
      case True
      have "distinct (map node (?N g1 b))"
        using a1(1) I [OF b_lt] s1(3) [of b] by (cases "a = b") auto
      then have "distinct (map node (?N g1 b) @
          (if a \<in> set (map node (?N g1 b)) then [] else [a]))"
        by (rule distinct_snoc_if)
      with True show ?thesis by (simp add: s2(4))
    next
      case False
      then show ?thesis
        using a1(1) I [OF u] s1(3) [of u] s2(3) [of u] by (cases "u = a") auto
    qed
    fix v
    show "weight_of (?N g' u) v = (if ?pw' u v = {} then None else Some (Min (?pw' u v)))"
    proof (cases "u = b")
      case ub: True
      show ?thesis
      proof (cases "v = a")
        case True
        have sym: "?pw b a = ?pw a b" by (auto simp: pair_weights_def)
        show ?thesis
          using ub True W1b
          by (simp add: s2(5) pair_weights_snoc sym Min_insert_if del: Min_insert)
      next
        case False
        then have "weight_of (?N g' u) v = weight_of (?N g1 b) v" using ub by (simp add: s2(5))
        also have "\<dots> = weight_of (?N g b) v"
        proof (cases "a = b")
          case True
          with False o1 [of v] show ?thesis by simp
        next
          case False
          then show ?thesis using s1(3) [of b] by simp
        qed
        finally show ?thesis using False ub W [OF b_lt, of v]
          by (auto simp: pair_weights_snoc)
      qed
    next
      case nb: False
      then have eq: "?N g' u = ?N g1 u" using s2(3) [of u] by simp
      show ?thesis
      proof (cases "u = a")
        case ua: True
        show ?thesis
        proof (cases "v = b")
          case True
          with ua nb a1(2) eq show ?thesis
            by (simp add: pair_weights_snoc)
        next
          case False
          with ua nb o1 [of v] W [OF u, of v] eq show ?thesis
            by (auto simp: pair_weights_snoc)
        qed
      next
        case False
        with nb s1(3) [of u] W [OF u, of v] eq show ?thesis
          by (auto simp: pair_weights_snoc)
      qed
    qed
  qed
qed

lemma add_edges_adjacency_ok:
  "adjacency_ok g done \<Longrightarrow> add_edges cfg g calls = Some g' \<Longrightarrow> adjacency_ok g' (done @ calls)"
proof (induction calls arbitrary: g "done")
  case Nil
  then show ?case by simp
next
  case (Cons c calls)
  obtain a b d where c: "c = (a, b, d)" by (cases c)
  from Cons.prems(2) obtain g1 where 1: "add_edge cfg g a b d True = Some g1"
    and 2: "add_edges cfg g1 calls = Some g'"
    by (auto simp: c bind_eq_Some_conv)
  from Cons.IH [OF add_edge_adjacency_ok [OF Cons.prems(1) 1] 2] show ?case by (simp add: c)
qed

lemma add_edges_length:
  "add_edges cfg g calls = Some g' \<Longrightarrow> length (node_data g') = length (node_data g)"
proof (induction calls arbitrary: g)
  case Nil
  then show ?case by simp
next
  case (Cons c calls)
  obtain a b d where c: "c = (a, b, d)" by (cases c)
  from Cons.prems obtain g1 g2 where 1: "add_edge_dir cfg g a b d = Some g1"
    and 2: "add_edge_dir cfg g1 b a d = Some g2" and 3: "add_edges cfg g2 calls = Some g'"
    by (auto simp: c add_edge_def bind_eq_Some_conv)
  from Cons.IH [OF 3] add_edge_dir_spec(2) [OF 1] add_edge_dir_spec(2) [OF 2] show ?case by simp
qed

lemma add_edges_in_range:
  "add_edges cfg g calls = Some g' \<Longrightarrow> (u, v, d) \<in> set calls
   \<Longrightarrow> u < length (node_data g) \<and> v < length (node_data g)"
proof (induction calls arbitrary: g)
  case Nil
  then show ?case by simp
next
  case (Cons c calls)
  obtain a b e where c: "c = (a, b, e)" by (cases c)
  from Cons.prems obtain g1 g2 where 1: "add_edge_dir cfg g a b e = Some g1"
    and 2: "add_edge_dir cfg g1 b a e = Some g2" and 3: "add_edges cfg g2 calls = Some g'"
    by (auto simp: c add_edge_def bind_eq_Some_conv)
  note l = add_edge_dir_spec(1,2) [OF 1] add_edge_dir_spec(1,2) [OF 2]
  show ?case
  proof (cases "(u, v, d) = c")
    case True
    with c l show ?thesis by simp
  next
    case False
    with Cons.prems(2) have "(u, v, d) \<in> set calls" by simp
    from Cons.IH [OF 3 this] l show ?thesis by simp
  qed
qed

lemma entries_unique:
  assumes "distinct (map node ns)" and "weight_of ns v = Some d"
  shows "map distance (filter (\<lambda>n. node n = v) ns) = [d]"
  using assms
proof (induction ns)
  case Nil
  then show ?case by simp
next
  case (Cons n ns)
  show ?case
  proof (cases "node n = v")
    case True
    with Cons.prems have "v \<notin> node ` set ns" by auto
    then have "filter (\<lambda>n. node n = v) ns = []" by (auto simp: filter_empty_conv)
    with True Cons.prems show ?thesis by simp
  next
    case False
    with Cons show ?thesis by simp
  qed
qed

text \<open>
  Claim C8. Start from a vertex table with empty neighbour lists and run any sequence of
  calls \<^verbatim>\<open>add_edge(u, v, d, true)\<close> that returns. For every pair \<open>u, v\<close> of some call, the
  neighbour list of \<open>u\<close> has exactly one entry for \<open>v\<close> and that of \<open>v\<close> exactly one entry
  for \<open>u\<close>, and both carry the minimum weight over all calls for the pair, in either
  direction.
\<close>

theorem add_edge_symmetric_min:
  assumes fresh: "\<forall>x \<in> set (node_data g0). neighbors x = []"
    and run: "add_edges cfg g0 calls = Some g"
    and call: "(u, v, d) \<in> set calls"
  shows "map distance (entries g u v) = [Min (pair_weights calls u v)]
       \<and> map distance (entries g v u) = [Min (pair_weights calls u v)]"
proof -
  have "adjacency_ok g0 []"
    using fresh by (simp add: adjacency_ok_def pair_weights_def)
  from add_edges_adjacency_ok [OF this run] have ok: "adjacency_ok g calls" by simp
  from add_edges_in_range [OF run call] add_edges_length [OF run]
  have u: "u < length (node_data g)" and v: "v < length (node_data g)" by simp_all
  have ne: "pair_weights calls u v \<noteq> {}" using call by (auto simp: pair_weights_def)
  have sym: "pair_weights calls v u = pair_weights calls u v" by (auto simp: pair_weights_def)
  from ok u ne have "distinct (map node (neighbors (node_data g ! u)))"
    and "weight_of (neighbors (node_data g ! u)) v = Some (Min (pair_weights calls u v))"
    unfolding adjacency_ok_def by simp_all
  then have 1: "map distance (entries g u v) = [Min (pair_weights calls u v)]"
    unfolding entries_def by (rule entries_unique)
  from ok v ne sym have "distinct (map node (neighbors (node_data g ! v)))"
    and "weight_of (neighbors (node_data g ! v)) u = Some (Min (pair_weights calls u v))"
    unfolding adjacency_ok_def by simp_all
  then have 2: "map distance (entries g v u) = [Min (pair_weights calls u v)]"
    unfolding entries_def by (rule entries_unique)
  from 1 2 show ?thesis by simp
qed

theorem add_edge_symmetric_min_witness:
  "map neighbors (node_data ex_g0) = replicate 6 []
   \<and> add_edges cfg_no_shortcuts ex_g0 ex_calls = Some ex_g
   \<and> (1, 2, 5) \<in> set ex_calls
   \<and> map distance (entries ex_g 1 2) = [3]
   \<and> map distance (entries ex_g 2 1) = [3]"
proof -
  have f: "\<forall>x \<in> set (node_data ex_g0). neighbors x = []"
    by (simp add: ex_g0_def)
  have r: "add_edges cfg_no_shortcuts ex_g0 ex_calls = Some ex_g"
    by code_simp
  have c: "(1, 2, 5) \<in> set ex_calls"
    by (simp add: ex_calls_def)
  have "pair_weights ex_calls 1 2 = {5, 3, 7}"
    by (auto simp: pair_weights_def ex_calls_def)
  then have m: "Min (pair_weights ex_calls 1 2) = 3"
    by simp
  have f': "map neighbors (node_data ex_g0) = replicate 6 []"
    by (simp add: ex_g0_def)
  from add_edge_symmetric_min [OF f r c] m f' r c show ?thesis by simp
qed

section \<open>The order of dequeues in DCL_Dec\<close>

lemma mbq_push_length:
  "length (buckets (mbq_push x b q)) = max (length (buckets q)) (Suc b)"
  by (auto simp: mbq_push_def Let_def)

lemma mbq_push_nth:
  "b' < length (buckets (mbq_push x b q)) \<Longrightarrow>
   buckets (mbq_push x b q) ! b' =
     (if b' < length (buckets q) then buckets q ! b' else []) @ (if b' = b then [x] else [])"
  by (auto simp: mbq_push_def Let_def nth_append nth_list_update)

lemma mbq_push_min:
  "min_bucket (mbq_push x b q) = (if mbq_empty q \<or> b < min_bucket q then b else min_bucket q)"
  by (simp add: mbq_push_def Let_def)

lemma mbq_push_ok:
  assumes "mbq_ok q"
  shows "mbq_ok (mbq_push x b q)"
  unfolding mbq_ok_def
proof (intro conjI allI impI)
  fix b' assume b': "b' < length (buckets (mbq_push x b q))" "b' < min_bucket (mbq_push x b q)"
  then have "b' \<noteq> b" by (auto simp: mbq_push_min mbq_empty_def split: if_splits)
  moreover have "buckets q ! b' = []" if "b' < length (buckets q)"
    using assms that b'(2) by (auto simp: mbq_ok_def mbq_push_min mbq_empty_def split: if_splits)
  ultimately show "buckets (mbq_push x b q) ! b' = []"
    using b'(1) by (simp add: mbq_push_nth)
next
  assume m: "min_bucket (mbq_push x b q) < length (buckets (mbq_push x b q))"
  show "buckets (mbq_push x b q) ! min_bucket (mbq_push x b q) \<noteq> []"
  proof (cases "mbq_empty q \<or> b < min_bucket q")
    case True
    then have "min_bucket (mbq_push x b q) = b" by (simp add: mbq_push_min)
    with m show ?thesis by (simp add: mbq_push_nth)
  next
    case False
    then have e: "min_bucket (mbq_push x b q) = min_bucket q" "min_bucket q < length (buckets q)"
      by (simp_all add: mbq_push_min mbq_empty_def)
    with assms have "buckets q ! min_bucket q \<noteq> []" by (simp add: mbq_ok_def)
    with m e show ?thesis by (simp add: mbq_push_nth)
  qed
qed

lemma skip_empty_spec:
  "mb \<le> skip_empty bs mb
   \<and> (\<forall>b. mb \<le> b \<and> b < skip_empty bs mb \<and> b < length bs \<longrightarrow> bs ! b = [])
   \<and> (skip_empty bs mb < length bs \<longrightarrow> bs ! skip_empty bs mb \<noteq> [])"
proof (induction bs mb rule: skip_empty.induct)
  case (1 bs mb)
  show ?case
  proof (cases "mb < length bs \<and> bs ! mb = []")
    case True
    then have e: "skip_empty bs mb = skip_empty bs (Suc mb)" by (subst skip_empty.simps) simp
    from 1 [OF True] have ih: "Suc mb \<le> skip_empty bs (Suc mb)"
      "\<And>b. Suc mb \<le> b \<Longrightarrow> b < skip_empty bs (Suc mb) \<Longrightarrow> b < length bs \<Longrightarrow> bs ! b = []"
      "skip_empty bs (Suc mb) < length bs \<Longrightarrow> bs ! skip_empty bs (Suc mb) \<noteq> []"
      by blast+
    show ?thesis
      unfolding e
    proof (intro conjI allI impI)
      show "mb \<le> skip_empty bs (Suc mb)" using ih(1) by simp
      show "bs ! skip_empty bs (Suc mb) \<noteq> []" if "skip_empty bs (Suc mb) < length bs"
        using ih(3) that .
      fix b assume b: "mb \<le> b \<and> b < skip_empty bs (Suc mb) \<and> b < length bs"
      show "bs ! b = []"
      proof (cases "b = mb")
        case True
        with \<open>mb < length bs \<and> bs ! mb = []\<close> show ?thesis by simp
      next
        case False
        with b ih(2) [of b] show ?thesis by simp
      qed
    qed
  next
    case False
    then have e: "skip_empty bs mb = mb" by (subst skip_empty.simps) auto
    with False show ?thesis by auto
  qed
qed

lemma mbq_pop_spec:
  assumes "mbq_pop q = Some (x, q')" and "mbq_ok q"
  shows "min_bucket q < length (buckets q)"
    and "x \<in> set (buckets q ! min_bucket q)"
    and "length (buckets q') = length (buckets q)"
    and "\<And>b. b < length (buckets q) \<Longrightarrow> set (buckets q' ! b) \<subseteq> set (buckets q ! b)"
    and "mbq_ok q'"
proof -
  let ?m = "min_bucket q"
  let ?bs = "(buckets q)[?m := butlast (buckets q ! ?m)]"
  from assms(1) have m: "?m < length (buckets q)" and ne: "buckets q ! ?m \<noteq> []"
    and x: "x = last (buckets q ! ?m)"
    and q': "q' = \<lparr>buckets = ?bs, min_bucket = skip_empty ?bs ?m\<rparr>"
    by (auto simp: mbq_pop_def Let_def split: if_splits)
  show "?m < length (buckets q)" by (rule m)
  show "x \<in> set (buckets q ! ?m)" using ne x by simp
  show "length (buckets q') = length (buckets q)" by (simp add: q')
  show "set (buckets q' ! b) \<subseteq> set (buckets q ! b)" if "b < length (buckets q)" for b
    using that by (cases "b = ?m") (auto simp: q' dest: in_set_butlastD)
  note sk = skip_empty_spec [of ?m ?bs]
  show "mbq_ok q'"
    unfolding mbq_ok_def
  proof (intro conjI allI impI)
    fix b assume b: "b < length (buckets q')" "b < min_bucket q'"
    show "buckets q' ! b = []"
    proof (cases "b < ?m")
      case True
      with assms(2) b(1) show ?thesis by (simp add: q' mbq_ok_def)
    next
      case False
      with sk b show ?thesis by (simp add: q')
    qed
  next
    assume "min_bucket q' < length (buckets q')"
    with sk show "buckets q' ! min_bucket q' \<noteq> []" by (simp add: q')
  qed
qed


lemma mbq_push_member:
  assumes b': "b' < length (buckets (mbq_push x b q))"
    and y: "y \<in> set (buckets (mbq_push x b q) ! b')"
  shows "(b' < length (buckets q) \<and> y \<in> set (buckets q ! b')) \<or> (b' = b \<and> y = x)"
  using y unfolding mbq_push_nth [OF b']
  by (cases "b' = b"; cases "b' < length (buckets q)"; auto)

lemma mbq_push_nonempty:
  assumes b': "b' < length (buckets (mbq_push x b q))"
    and ne: "buckets (mbq_push x b q) ! b' \<noteq> []"
  shows "(b' < length (buckets q) \<and> buckets q ! b' \<noteq> []) \<or> b' = b"
  using ne unfolding mbq_push_nth [OF b']
  by (cases "b' = b"; cases "b' < length (buckets q)"; auto)

lemma mbq_push_keys_ok:
  assumes "keys_ok ch q" and "ich_v x < length ch" and "unat (ch_dist_index (ch ! ich_v x)) = b"
  shows "keys_ok ch (mbq_push x b q)"
proof -
  have "ich_v y < length ch \<and> unat (ch_dist_index (ch ! ich_v y)) = b'"
    if b': "b' < length (buckets (mbq_push x b q))"
      and y: "y \<in> set (buckets (mbq_push x b q) ! b')" for b' y
  proof (cases "b' = b \<and> y = x")
    case True
    with assms(2,3) show ?thesis by simp
  next
    case False
    with mbq_push_member [OF b' y] have "b' < length (buckets q)" "y \<in> set (buckets q ! b')" by auto
    with assms(1) show ?thesis by (simp add: keys_ok_def)
  qed
  then show ?thesis by (simp add: keys_ok_def)
qed

lemma mbq_push_keys_below:
  assumes "keys_below keys q" and "\<forall>k \<in> set keys. k \<le> b"
  shows "keys_below keys (mbq_push x b q)"
proof -
  have "k \<le> b'" if k: "k \<in> set keys" and b': "b' < length (buckets (mbq_push x b q))"
    and ne: "buckets (mbq_push x b q) ! b' \<noteq> []" for k b'
  proof (cases "b' = b")
    case True
    with assms(2) k show ?thesis by simp
  next
    case False
    with mbq_push_nonempty [OF b' ne] have "b' < length (buckets q)" "buckets q ! b' \<noteq> []" by auto
    with assms(1) k show ?thesis by (simp add: keys_below_def)
  qed
  then show ?thesis by (simp add: keys_below_def)
qed

lemma dec_down_loop_inv:
  assumes "dec_down_loop ch idx nxt us q = Some q'"
    and "mbq_ok q" and "keys_ok ch q" and "keys_below keys q"
    and "\<forall>u \<in> set us. u < length ch \<longrightarrow> (\<forall>k \<in> set keys. k \<le> unat (ch_dist_index (ch ! u)))"
  shows "mbq_ok q' \<and> keys_ok ch q' \<and> keys_below keys q'"
  using assms
proof (induction us arbitrary: q)
  case Nil
  then show ?case by simp
next
  case (Cons u us)
  from Cons.prems(1) have "dec_down_loop ch idx nxt us q = Some q'
      \<or> (\<exists>it. ich_v it = u \<and> u < length ch
            \<and> dec_down_loop ch idx nxt us (mbq_push it (unat (ch_dist_index (ch ! u))) q) = Some q')"
    by (auto simp: bind_eq_Some_conv Let_def nth_opt_def split: if_splits)
  then show ?case
  proof
    assume "dec_down_loop ch idx nxt us q = Some q'"
    from Cons.IH [OF this Cons.prems(2,3,4)] Cons.prems(5) show ?thesis by simp
  next
    assume "\<exists>it. ich_v it = u \<and> u < length ch
            \<and> dec_down_loop ch idx nxt us (mbq_push it (unat (ch_dist_index (ch ! u))) q) = Some q'"
    then obtain it where it: "ich_v it = u" and u: "u < length ch"
      and rec: "dec_down_loop ch idx nxt us (mbq_push it (unat (ch_dist_index (ch ! u))) q) = Some q'"
      by blast
    let ?q = "mbq_push it (unat (ch_dist_index (ch ! u))) q"
    have 1: "mbq_ok ?q" using Cons.prems(2) by (rule mbq_push_ok)
    have 2: "keys_ok ch ?q" using Cons.prems(3) u it by (intro mbq_push_keys_ok) simp_all
    have 3: "keys_below keys ?q"
      using Cons.prems(4,5) u by (intro mbq_push_keys_below) simp_all
    from Cons.IH [OF rec 1 2 3] Cons.prems(5) show ?thesis by simp
  qed
qed

lemma dec_seed_loop_inv:
  assumes "dec_seed_loop ch a b v d c is q = Some q'" and "mbq_ok q" and "keys_ok ch q"
  shows "mbq_ok q' \<and> keys_ok ch q'"
  using assms
proof (induction "is" arbitrary: q)
  case Nil
  then show ?case by simp
next
  case (Cons i "is")
  from Cons.prems(1) have "dec_seed_loop ch a b v d c is q = Some q'
      \<or> (\<exists>it. ich_v it = v \<and> v < length ch
            \<and> dec_seed_loop ch a b v d c is (mbq_push it (unat (ch_dist_index (ch ! v))) q) = Some q')"
    by (auto simp: bind_eq_Some_conv Let_def nth_opt_def split: if_splits)
  then show ?case
  proof
    assume "dec_seed_loop ch a b v d c is q = Some q'"
    from Cons.IH [OF this Cons.prems(2,3)] show ?thesis .
  next
    assume "\<exists>it. ich_v it = v \<and> v < length ch
            \<and> dec_seed_loop ch a b v d c is (mbq_push it (unat (ch_dist_index (ch ! v))) q) = Some q'"
    then obtain it where it: "ich_v it = v" and v: "v < length ch"
      and rec: "dec_seed_loop ch a b v d c is (mbq_push it (unat (ch_dist_index (ch ! v))) q) = Some q'"
      by blast
    let ?q = "mbq_push it (unat (ch_dist_index (ch ! v))) q"
    have 1: "mbq_ok ?q" using Cons.prems(2) by (rule mbq_push_ok)
    have 2: "keys_ok ch ?q" using Cons.prems(3) v it by (intro mbq_push_keys_ok) simp_all
    from Cons.IH [OF rec 1 2] show ?thesis .
  qed
qed

lemma dec_seed_inv:
  assumes "dec_seed ch idx C q = Some q'" and "mbq_ok q" and "keys_ok ch q"
  shows "mbq_ok q' \<and> keys_ok ch q'"
  using assms
proof (induction C arbitrary: q)
  case Nil
  then show ?case by simp
next
  case (Cons e C)
  obtain v w d c where e: "e = ((v, w), (d, c))" by (cases e) auto
  from Cons.prems(1) have "dec_seed ch idx C q = Some q'
      \<or> (\<exists>a b n q1. dec_seed_loop ch a b v d c [0..<Suc n] q = Some q1 \<and> dec_seed ch idx C q1 = Some q')"
    unfolding e by (auto simp: bind_eq_Some_conv split: if_splits)
  then show ?case
  proof
    assume "dec_seed ch idx C q = Some q'"
    from Cons.IH [OF this Cons.prems(2,3)] show ?thesis .
  next
    assume "\<exists>a b n q1. dec_seed_loop ch a b v d c [0..<Suc n] q = Some q1 \<and> dec_seed ch idx C q1 = Some q'"
    then obtain a b n q1 where 1: "dec_seed_loop ch a b v d c [0..<Suc n] q = Some q1"
      and 2: "dec_seed ch idx C q1 = Some q'" by blast
    from dec_seed_loop_inv [OF 1 Cons.prems(2,3)] Cons.IH [OF 2] show ?thesis by simp
  qed
qed

lemma sorted_snoc_le: "sorted ks \<Longrightarrow> \<forall>k \<in> set ks. k \<le> (m::nat) \<Longrightarrow> sorted (ks @ [m])"
  by (simp add: sorted_append)

lemma dec_step_inv:
  assumes inv: "dec_inv ch st" and ord: "down_order ch" and step: "dec_step ch st = Some st'"
  shows "dec_inv ch st'"
proof -
  let ?q = "dec_queue st" and ?m = "min_bucket (dec_queue st)"
  let ?keys = "dec_keys st @ [?m]"
  from inv have ok: "mbq_ok ?q" and ko: "keys_ok ch ?q" and so: "sorted (dec_keys st)"
    and kb: "keys_below (dec_keys st) ?q" by (simp_all add: dec_inv_def)
  from step obtain nxt q where pop: "mbq_pop ?q = Some (nxt, q)"
    by (auto simp: dec_step_def bind_eq_Some_conv)
  note p = mbq_pop_spec [OF pop ok]
  have ne: "buckets ?q ! ?m \<noteq> []" using p(2) by auto
  have le: "\<forall>k \<in> set (dec_keys st). k \<le> ?m"
    using kb p(1) ne by (auto simp: keys_below_def)
  have s': "sorted ?keys" using so le by (rule sorted_snoc_le)
  have nv: "ich_v nxt < length ch" "unat (ch_dist_index (ch ! ich_v nxt)) = ?m"
    using ko p(1,2) by (auto simp: keys_ok_def)
  have ko': "keys_ok ch q"
    unfolding keys_ok_def using ko p(3,4) by (fastforce simp: keys_ok_def)
  have kb': "keys_below ?keys q"
    unfolding keys_below_def
  proof (intro ballI allI impI)
    fix k b assume k: "k \<in> set ?keys" and b: "b < length (buckets q)" "buckets q ! b \<noteq> []"
    from b p(3) p(4) [of b] have b0: "b < length (buckets ?q)" "buckets ?q ! b \<noteq> []" by auto
    with ok have "?m \<le> b" by (auto simp: mbq_ok_def not_less [symmetric])
    with k le show "k \<le> b" by auto
  qed
  have down: "\<forall>u \<in> set (down_neighbors (ch ! ich_v nxt)). u < length ch \<longrightarrow>
      (\<forall>k \<in> set ?keys. k \<le> unat (ch_dist_index (ch ! u)))"
  proof (intro ballI impI)
    fix u k assume u: "u \<in> set (down_neighbors (ch ! ich_v nxt))" "u < length ch" and k: "k \<in> set ?keys"
    from ord nv(1) u have "ch_dist_index (ch ! ich_v nxt) < ch_dist_index (ch ! u)"
      by (auto simp: down_order_def)
    then have "?m < unat (ch_dist_index (ch ! u))" using nv(2) by (simp add: word_less_nat_alt)
    with k le show "k \<le> unat (ch_dist_index (ch ! u))" by auto
  qed
  from step pop have "st' = \<lparr>dec_queue = q, dec_index = dec_index st, dec_keys = ?keys\<rparr>
      \<or> (\<exists>idx' q'. dec_down_loop ch idx' nxt (down_neighbors (ch ! ich_v nxt)) q = Some q'
            \<and> st' = \<lparr>dec_queue = q', dec_index = idx', dec_keys = ?keys\<rparr>)"
    by (auto simp: dec_step_def bind_eq_Some_conv Let_def nth_opt_def split: if_splits)
  then show ?thesis
  proof
    assume "st' = \<lparr>dec_queue = q, dec_index = dec_index st, dec_keys = ?keys\<rparr>"
    with p(5) ko' s' kb' show ?thesis by (simp add: dec_inv_def)
  next
    assume "\<exists>idx' q'. dec_down_loop ch idx' nxt (down_neighbors (ch ! ich_v nxt)) q = Some q'
            \<and> st' = \<lparr>dec_queue = q', dec_index = idx', dec_keys = ?keys\<rparr>"
    then obtain idx' q' where d: "dec_down_loop ch idx' nxt (down_neighbors (ch ! ich_v nxt)) q = Some q'"
      and st': "st' = \<lparr>dec_queue = q', dec_index = idx', dec_keys = ?keys\<rparr>" by blast
    from dec_down_loop_inv [OF d p(5) ko' kb' down] s' show ?thesis by (simp add: dec_inv_def st')
  qed
qed

lemma dec_loop_inv:
  "dec_inv ch st \<Longrightarrow> down_order ch \<Longrightarrow> dec_loop fuel ch st = Some st' \<Longrightarrow> dec_inv ch st'"
proof (induction fuel arbitrary: st)
  case 0
  then show ?case by simp
next
  case (Suc fuel)
  show ?case
  proof (cases "mbq_empty (dec_queue st)")
    case True
    with Suc.prems show ?thesis by simp
  next
    case False
    with Suc.prems(3) obtain st1 where 1: "dec_step ch st = Some st1"
      and 2: "dec_loop fuel ch st1 = Some st'" by (auto simp: bind_eq_Some_conv)
    from Suc.IH [OF dec_step_inv [OF Suc.prems(1,2) 1] Suc.prems(2) 2] show ?thesis .
  qed
qed

text \<open>
  Claim C5, as amended. In a shortcut graph where every down-neighbour has a larger
  \<^verbatim>\<open>dist_index\<close> than its vertex, the bucket keys of successive dequeues of \<^verbatim>\<open>DCL_Dec\<close>
  never decrease: entries are dequeued in ascending \<^verbatim>\<open>dist_index\<close> order, a vertex before
  its descendants. This holds after any number of dequeues.
\<close>

theorem DCL_Dec_dequeue_order:
  assumes "down_order ch" and "DCL_Dec_labels fuel ch idx C = Some st"
  shows "sorted (dec_keys st)"
proof -
  from assms(2) obtain q where q: "dec_seed ch idx C mbq_init = Some q"
    and l: "dec_loop fuel ch \<lparr>dec_queue = q, dec_index = idx, dec_keys = []\<rparr> = Some st"
    by (auto simp: DCL_Dec_labels_def bind_eq_Some_conv)
  have "mbq_ok (mbq_init :: ICHSearchNode min_bucket_queue)" "keys_ok ch mbq_init"
    by (simp_all add: mbq_ok_def keys_ok_def mbq_init_def)
  from dec_seed_inv [OF q this] have "dec_inv ch \<lparr>dec_queue = q, dec_index = idx, dec_keys = []\<rparr>"
    by (simp add: dec_inv_def keys_below_def)
  from dec_loop_inv [OF this assms(1) l] show ?thesis by (simp add: dec_inv_def)
qed

lemma down_order_code:
  "down_order ch \<longleftrightarrow>
     list_all (\<lambda>v. list_all (\<lambda>u. u < length ch \<longrightarrow> ch_dist_index (ch ! v) < ch_dist_index (ch ! u))
        (down_neighbors (ch ! v))) [0..<length ch]"
  by (auto simp: down_order_def list_all_iff)

lemma down_order_path_ch: "down_order path_ch"
  unfolding down_order_code by code_simp

theorem DCL_Dec_dequeue_order_witness:
  "DCL_Dec_labels 10 path_ch path_index path_changes = Some path_result
   \<and> mbq_empty (dec_queue path_result)
   \<and> sorted (dec_keys path_result)"
proof -
  have r: "DCL_Dec_labels 10 path_ch path_index path_changes = Some path_result"
    by code_simp
  have e: "mbq_empty (dec_queue path_result)"
    by code_simp
  from DCL_Dec_dequeue_order [OF down_order_path_ch r] r e show ?thesis by simp
qed

text \<open>
  Claim C5 as stated fails: on the path \<open>1 - 2 - 3\<close> the first dequeue is from bucket 1
  (vertex 2) and the second from bucket 2 (vertex 3), so the keys increase.
\<close>

theorem DCL_Dec_decreasing_counterexample:
  "map_option dec_keys (DCL_Dec_labels 10 path_ch path_index path_changes) = Some [1, 2]"
  by code_simp

section \<open>Properties of read_graph\<close>



















section \<open>The order of the shortcut graph\<close>

lemma anc_chain:
  assumes "anc ci a v" and "anc ci b v"
  shows "anc ci a b \<or> anc ci b a"
proof -
  let ?l = "\<lambda>x. ci_cut_level (ci ! x)" and ?p = "\<lambda>x. ci_partition (ci ! x)"
  have aux: "anc ci x y" if xy: "?l x \<le> ?l y" and x: "anc ci x v" and y: "anc ci y v" for x y
  proof -
    have "take_bit (?l x) (?p y) = take_bit (?l x) (take_bit (?l y) (?p y))"
      using xy by (simp add: min_def)
    also have "\<dots> = take_bit (?l x) (take_bit (?l y) (?p v))"
      using y by (simp add: anc_def)
    also have "\<dots> = take_bit (?l x) (?p v)"
      using xy by (simp add: min_def)
    also have "\<dots> = take_bit (?l x) (?p x)"
      using x by (simp add: anc_def)
    finally show ?thesis using xy by (simp add: anc_def)
  qed
  show ?thesis
  proof (cases "?l a \<le> ?l b")
    case True
    from aux [OF True assms] show ?thesis ..
  next
    case False
    then have "?l b \<le> ?l a" by simp
    from aux [OF this assms(2,1)] show ?thesis ..
  qed
qed

lemma sc_good_distinct:
  assumes h: "hierarchy_ok g ci closest"
    and a: "sc_good g ci closest v a" and b: "sc_good g ci closest v b" and ne: "a \<noteq> b"
  shows "ci_di ci a \<noteq> ci_di ci b"
proof -
  from a b have ca: "core g closest a" and cb: "core g closest b"
    and aa: "anc ci a v" and ab: "anc ci b v"
    by (simp_all add: sc_good_def)
  from ca cb have na: "a \<in> set (nodes g)" and nb: "b \<in> set (nodes g)" by (simp_all add: core_def)
  from h have mono: "\<And>x y. x \<in> set (nodes g) \<Longrightarrow> y \<in> set (nodes g) \<Longrightarrow> core g closest x
      \<Longrightarrow> core g closest y \<Longrightarrow> x \<noteq> y \<Longrightarrow> anc ci x y
      \<Longrightarrow> (if anc ci y x then ci_di ci x \<noteq> ci_di ci y else ci_di ci x < ci_di ci y)"
    unfolding hierarchy_ok_def by blast
  from anc_chain [OF aa ab] show ?thesis
  proof
    assume "anc ci a b"
    from mono [OF na nb ca cb ne this] show ?thesis by (auto split: if_splits)
  next
    assume "anc ci b a"
    from mono [OF nb na cb ca ne [symmetric] this] show ?thesis by (auto split: if_splits)
  qed
qed

lemma sc_good_pair:
  assumes h: "hierarchy_ok g ci closest"
    and a: "sc_good g ci closest v a" and b: "sc_good g ci closest v b"
    and lt: "ci_di ci b < ci_di ci a"
  shows "sc_good g ci closest a b"
proof -
  from a b have ca: "core g closest a" and cb: "core g closest b"
    and aa: "anc ci a v" and ab: "anc ci b v"
    by (simp_all add: sc_good_def)
  from ca cb have na: "a \<in> set (nodes g)" and nb: "b \<in> set (nodes g)" by (simp_all add: core_def)
  from lt have ne: "a \<noteq> b" by auto
  from h have mono: "\<And>x y. x \<in> set (nodes g) \<Longrightarrow> y \<in> set (nodes g) \<Longrightarrow> core g closest x
      \<Longrightarrow> core g closest y \<Longrightarrow> x \<noteq> y \<Longrightarrow> anc ci x y
      \<Longrightarrow> (if anc ci y x then ci_di ci x \<noteq> ci_di ci y else ci_di ci x < ci_di ci y)"
    unfolding hierarchy_ok_def by blast
  have "anc ci b a"
  proof (rule ccontr)
    assume n: "\<not> anc ci b a"
    with anc_chain [OF aa ab] have "anc ci a b" by simp
    from mono [OF na nb ca cb ne this] n have "ci_di ci a < ci_di ci b" by simp
    with lt show False by simp
  qed
  with ca cb lt show ?thesis by (simp add: sc_good_def)
qed

lemma sc_good_edge:
  assumes h: "hierarchy_ok g ci closest"
    and v: "core g closest v"
    and n: "n \<in> set (neighbors (node_data g ! v))"
    and c: "node (closest ! node n) = node n"
    and lt: "ci_di ci (node n) < ci_di ci v"
  shows "sc_good g ci closest v (node n)"
proof -
  from v have nv: "v \<in> set (nodes g)" by (simp add: core_def)
  from h nv v n c have nn: "node n \<in> set (nodes g)"
    and cmp: "anc ci (node n) v \<or> anc ci v (node n)"
    unfolding hierarchy_ok_def by blast+
  from nn c have cn: "core g closest (node n)" by (simp add: core_def)
  from lt have ne: "v \<noteq> node n" by auto
  from h have mono: "\<And>x y. x \<in> set (nodes g) \<Longrightarrow> y \<in> set (nodes g) \<Longrightarrow> core g closest x
      \<Longrightarrow> core g closest y \<Longrightarrow> x \<noteq> y \<Longrightarrow> anc ci x y
      \<Longrightarrow> (if anc ci y x then ci_di ci x \<noteq> ci_di ci y else ci_di ci x < ci_di ci y)"
    unfolding hierarchy_ok_def by blast
  have "anc ci (node n) v"
  proof (rule ccontr)
    assume n': "\<not> anc ci (node n) v"
    with cmp have "anc ci v (node n)" by simp
    from mono [OF nv nn v cn ne this] n' have "ci_di ci v < ci_di ci (node n)" by simp
    with lt show False by simp
  qed
  with v cn lt show ?thesis by (simp add: sc_good_def)
qed

lemma sc_inv_up_order:
  assumes "sc_inv g ci closest ch"
  shows "up_order ch"
proof -
  have "node n < length ch \<and> ch_dist_index (ch ! node n) < ch_dist_index nv"
    if nv: "nv \<in> set ch" and n: "n \<in> set (up_neighbors nv)" for nv n
  proof -
    from nv obtain v where v: "v < length ch" and nv': "nv = ch ! v"
      by (auto simp: in_set_conv_nth)
    from assms v n nv' have g: "sc_good g ci closest v (node n)" by (simp add: sc_inv_def)
    then have cv: "core g closest v" and cn: "core g closest (node n)"
      and lt: "ci_di ci (node n) < ci_di ci v"
      by (simp_all add: sc_good_def)
    from cv cn have "v \<in> set (nodes g)" "node n \<in> set (nodes g)" by (simp_all add: core_def)
    with assms cv cn have "node n < length ch" "ch_dist_index (ch ! node n) = ci_di ci (node n)"
      "ch_dist_index (ch ! v) = ci_di ci v"
      by (simp_all add: sc_inv_def)
    with lt nv' show ?thesis by simp
  qed
  then show ?thesis by (simp add: up_order_def list_all_iff)
qed

lemma set_insert_by: "set (insert_by lt x xs) = insert x (set xs)"
  by (induction xs) auto

lemma set_sort_by: "set (sort_by lt xs) = set xs"
  by (induction xs) (simp_all add: sort_by_def set_insert_by)

lemma sorted_insert_by:
  assumes tr: "\<And>a b c. \<not> lt b a \<Longrightarrow> \<not> lt c b \<Longrightarrow> \<not> lt c a"
    and asym: "\<And>a b. lt a b \<Longrightarrow> \<not> lt b a"
  shows "sorted_wrt (\<lambda>a b. \<not> lt b a) xs \<Longrightarrow> sorted_wrt (\<lambda>a b. \<not> lt b a) (insert_by lt x xs)"
proof (induction xs)
  case Nil
  then show ?case by simp
next
  case (Cons y ys)
  show ?case
  proof (cases "lt y x")
    case True
    with Cons asym [OF True] show ?thesis by (auto simp: set_insert_by)
  next
    case False
    have "\<not> lt z x" if "z \<in> set ys" for z
    proof -
      from Cons.prems that have "\<not> lt z y" by simp
      from tr [OF False this] show ?thesis .
    qed
    with False Cons.prems show ?thesis by auto
  qed
qed

lemma sorted_sort_by:
  assumes tr: "\<And>a b c. \<not> lt b a \<Longrightarrow> \<not> lt c b \<Longrightarrow> \<not> lt c a"
    and asym: "\<And>a b. lt a b \<Longrightarrow> \<not> lt b a"
  shows "sorted_wrt (\<lambda>a b. \<not> lt b a) (sort_by lt xs)"
proof (induction xs)
  case Nil
  then show ?case by (simp add: sort_by_def)
next
  case (Cons x xs)
  from sorted_insert_by [of lt, OF tr asym Cons] show ?case by (simp add: sort_by_def)
qed

lemma di_order1_sorted:
  "sorted_wrt (\<lambda>a b. di_of ch (node b) \<le> di_of ch (node a)) (sort_by (di_order1 ch) xs)"
proof -
  have tr: "\<not> di_order1 ch c a" if "\<not> di_order1 ch b a" "\<not> di_order1 ch c b" for a b c
    using that unfolding di_order1_def by (auto split: if_splits)
  have asym: "\<not> di_order1 ch b a" if "di_order1 ch a b" for a b
    using that unfolding di_order1_def by (auto split: if_splits)
  have "sorted_wrt (\<lambda>a b. \<not> di_order1 ch b a) (sort_by (di_order1 ch) xs)"
    by (rule sorted_sort_by) (use tr asym in blast)+
  moreover have "di_of ch (node b) \<le> di_of ch (node a)" if "\<not> di_order1 ch b a" for a b
    using that unfolding di_order1_def by (auto split: if_splits)
  ultimately show ?thesis by (rule sorted_wrt_mono_rel [rotated]) blast
qed

lemma unique_loop_subset: "set (unique_loop x xs) \<subseteq> set xs"
  by (induction x xs rule: unique_loop.induct) auto

lemma unique_loop_sorted:
  fixes f :: "Neighbor \<Rightarrow> u16"
  assumes "sorted_wrt (\<lambda>a b. f b \<le> f a) (x # xs)"
    and "\<And>a b. a \<in> set (x # xs) \<Longrightarrow> b \<in> set (x # xs) \<Longrightarrow> node a \<noteq> node b \<Longrightarrow> f a \<noteq> f b"
  shows "sorted_wrt (\<lambda>a b. f b < f a) (x # unique_loop x xs)"
  using assms
proof (induction x xs rule: unique_loop.induct)
  case (1 l)
  then show ?case by simp
next
  case (2 l y ys)
  show ?case
  proof (cases "node y \<noteq> node l")
    case True
    from 2(3) have s: "sorted_wrt (\<lambda>a b. f b \<le> f a) (y # ys)" by simp
    have d: "\<And>a b. a \<in> set (y # ys) \<Longrightarrow> b \<in> set (y # ys) \<Longrightarrow> node a \<noteq> node b \<Longrightarrow> f a \<noteq> f b"
      by (rule 2(4)) auto
    from 2(1) [OF True s d] have ih: "sorted_wrt (\<lambda>a b. f b < f a) (y # unique_loop y ys)" .
    from 2(3) have "f y \<le> f l" by simp
    moreover from 2(4) [of y l] True have "f y \<noteq> f l" by simp
    ultimately have yl: "f y < f l" by simp
    have "f z < f l" if "z \<in> set (unique_loop y ys)" for z
    proof -
      from ih that have "f z < f y" by simp
      with yl show ?thesis by simp
    qed
    with ih yl True show ?thesis by simp
  next
    case False
    from 2(3) have s: "sorted_wrt (\<lambda>a b. f b \<le> f a) (l # ys)" by simp
    have d: "\<And>a b. a \<in> set (l # ys) \<Longrightarrow> b \<in> set (l # ys) \<Longrightarrow> node a \<noteq> node b \<Longrightarrow> f a \<noteq> f b"
      by (rule 2(4)) auto
    from 2(2) [OF False s d] False show ?thesis by simp
  qed
qed

lemma make_set_subset: "set (make_set cmp v) \<subseteq> set v"
proof (cases "sort_by cmp v")
  case Nil
  then show ?thesis by (simp add: make_set_def)
next
  case (Cons x xs)
  from set_sort_by [of cmp v] Cons have "set (x # xs) = set v" by simp
  with unique_loop_subset [of x xs] have "set (x # unique_loop x xs) \<subseteq> set v" by auto
  with Cons show ?thesis by (simp add: make_set_def)
qed

lemma make_set_sorted:
  assumes "\<And>a b. a \<in> set v \<Longrightarrow> b \<in> set v \<Longrightarrow> node a \<noteq> node b
             \<Longrightarrow> di_of ch (node a) \<noteq> di_of ch (node b)"
  shows "sorted_wrt (\<lambda>a b. di_of ch (node b) < di_of ch (node a)) (make_set (di_order1 ch) v)"
proof (cases "length v < 2")
  case True
  then have "v = [] \<or> (\<exists>a. v = [a])" by (cases v) (auto simp: length_Suc_conv)
  with True show ?thesis by (auto simp: make_set_def)
next
  case False
  show ?thesis
  proof (cases "sort_by (di_order1 ch) v")
    case Nil
    with False show ?thesis by (simp add: make_set_def)
  next
    case (Cons x xs)
    from di_order1_sorted [of ch v] Cons
    have s: "sorted_wrt (\<lambda>a b. di_of ch (node b) \<le> di_of ch (node a)) (x # xs)" by simp
    from set_sort_by [of "di_order1 ch" v] Cons have "set (x # xs) = set v" by simp
    with assms have d: "\<And>a b. a \<in> set (x # xs) \<Longrightarrow> b \<in> set (x # xs) \<Longrightarrow> node a \<noteq> node b
        \<Longrightarrow> di_of ch (node a) \<noteq> di_of ch (node b)" by blast
    from unique_loop_sorted [of "\<lambda>n. di_of ch (node n)" x xs, OF s d] Cons False
    show ?thesis by (simp add: make_set_def)
  qed
qed


lemma sc_inv_update:
  assumes inv: "sc_inv g ci closest ch" and v: "v < length ch"
    and di: "ch_dist_index nv = ch_dist_index (ch ! v)"
    and up: "\<And>n. n \<in> set (up_neighbors nv)
               \<Longrightarrow> n \<in> set (up_neighbors (ch ! v)) \<or> sc_good g ci closest v (node n)"
  shows "sc_inv g ci closest (ch[v := nv])"
proof -
  have 1: "x < length (ch[v := nv])
      \<and> (core g closest x \<longrightarrow> ch_dist_index (ch[v := nv] ! x) = ci_di ci x)"
    if "x \<in> set (nodes g)" for x
    using inv that di v by (cases "x = v") (simp_all add: sc_inv_def)
  have 2: "sc_good g ci closest w (node n)"
    if w: "w < length (ch[v := nv])" and n: "n \<in> set (up_neighbors (ch[v := nv] ! w))" for w n
  proof (cases "w = v")
    case True
    with n v have "n \<in> set (up_neighbors nv)" by simp
    from up [OF this] inv v True show ?thesis by (auto simp: sc_inv_def)
  next
    case False
    with n w inv show ?thesis by (simp add: sc_inv_def)
  qed
  from 1 2 show ?thesis unfolding sc_inv_def by blast
qed

lemma sc_pair_inv:
  assumes inv: "sc_inv g ci closest (sc_ch st)"
    and good: "sc_good g ci closest (node ui) (node uj)"
    and r: "sc_pair v ui uj st = Some st'"
  shows "sc_inv g ci closest (sc_ch st')"
proof -
  have push: "sc_inv g ci closest ((sc_ch st)[node ui := (sc_ch st ! node ui)\<lparr>up_neighbors :=
               up_neighbors (sc_ch st ! node ui) @ [\<lparr>node = node uj, distance = d, path_count = c\<rparr>]\<rparr>])"
    if "node ui < length (sc_ch st)" for d c
    by (rule sc_inv_update [OF inv that]) (use good in auto)
  from r inv show ?thesis
    by (auto simp: sc_pair_def bind_eq_Some_conv nth_opt_def Let_def push split: if_splits)
qed

lemma sc_inner_loop_inv:
  assumes "sc_inner_loop v ui ujs st = Some st'"
    and "sc_inv g ci closest (sc_ch st)"
    and "\<And>uj. uj \<in> set ujs \<Longrightarrow> sc_good g ci closest (node ui) (node uj)"
  shows "sc_inv g ci closest (sc_ch st')"
  using assms
proof (induction ujs arbitrary: st)
  case Nil
  then show ?case by simp
next
  case (Cons uj ujs)
  from Cons.prems(1) obtain st1 where p: "sc_pair v ui uj st = Some st1"
    and l: "sc_inner_loop v ui ujs st1 = Some st'"
    by (auto simp: bind_eq_Some_conv)
  have "sc_inv g ci closest (sc_ch st1)"
    by (rule sc_pair_inv [OF Cons.prems(2) _ p]) (simp add: Cons.prems(3))
  from Cons.IH [OF l this] Cons.prems(3) show ?case by simp
qed

lemma sc_outer_loop_inv:
  assumes "sc_outer_loop v up st = Some st'"
    and "sc_inv g ci closest (sc_ch st)"
    and "sorted_wrt (\<lambda>a b. sc_good g ci closest (node a) (node b)) up"
  shows "sc_inv g ci closest (sc_ch st')"
  using assms
proof (induction up arbitrary: st)
  case Nil
  then show ?case by simp
next
  case (Cons ui up)
  from Cons.prems(1) obtain st1 where p: "sc_inner_loop v ui up st = Some st1"
    and l: "sc_outer_loop v up st1 = Some st'"
    by (auto simp: bind_eq_Some_conv)
  have "sc_inv g ci closest (sc_ch st1)"
    by (rule sc_inner_loop_inv [OF p Cons.prems(2)]) (use Cons.prems(3) in simp)
  from Cons.IH [OF l this] Cons.prems(3) show ?case by simp
qed

lemma sc_down_loop_inv:
  assumes "sc_down_loop v up ch = Some ch'" and "sc_inv g ci closest ch"
  shows "sc_inv g ci closest ch'"
  using assms
proof (induction up arbitrary: ch)
  case Nil
  then show ?case by simp
next
  case (Cons upn up)
  from Cons.prems(1) have l: "node upn < length ch"
    and r: "sc_down_loop v up (ch[node upn := (ch ! node upn)\<lparr>down_neighbors :=
              down_neighbors (ch ! node upn) @ [v]\<rparr>]) = Some ch'"
    by (auto simp: bind_eq_Some_conv nth_opt_def split: if_splits)
  have "sc_inv g ci closest (ch[node upn := (ch ! node upn)\<lparr>down_neighbors :=
              down_neighbors (ch ! node upn) @ [v]\<rparr>])"
    by (rule sc_inv_update [OF Cons.prems(2) l]) simp_all
  from Cons.IH [OF r this] show ?case .
qed

lemma sc_shortcuts_inv:
  assumes h: "hierarchy_ok g ci closest"
    and "sc_shortcuts vs st = Some st'"
    and "sc_inv g ci closest (sc_ch st)"
  shows "sc_inv g ci closest (sc_ch st')"
  using assms(2,3)
proof (induction vs arbitrary: st)
  case Nil
  then show ?case by simp
next
  case (Cons v vs)
  let ?ch = "sc_ch st"
  let ?up = "make_set (di_order1 ?ch) (up_neighbors (?ch ! v))"
  let ?chu = "?ch[v := (?ch ! v)\<lparr>up_neighbors := ?up\<rparr>]"
  from Cons.prems(1) obtain st1 ch2 where v: "v < length ?ch"
    and o: "sc_outer_loop v ?up (st\<lparr>sc_ch := ?chu\<rparr>) = Some st1"
    and d: "sc_down_loop v ?up (sc_ch st1) = Some ch2"
    and r: "sc_shortcuts vs (st1\<lparr>sc_ch := ch2\<rparr>) = Some st'"
    by (auto simp: bind_eq_Some_conv nth_opt_def Let_def split: if_splits)
  note inv = Cons.prems(2)
  have good: "sc_good g ci closest v (node n)" if "n \<in> set (up_neighbors (?ch ! v))" for n
    using inv v that by (simp add: sc_inv_def)
  have di: "di_of ?ch (node n) = ci_di ci (node n)" if "n \<in> set (up_neighbors (?ch ! v))" for n
  proof -
    from good [OF that] have c: "core g closest (node n)" by (simp add: sc_good_def)
    then have "node n \<in> set (nodes g)" by (simp add: core_def)
    with inv c show ?thesis by (simp add: sc_inv_def di_of_def)
  qed
  have sub: "set ?up \<subseteq> set (up_neighbors (?ch ! v))" by (rule make_set_subset)
  have inv0: "sc_inv g ci closest ?chu"
    by (rule sc_inv_update [OF inv v]) (use sub in auto)
  have "sorted_wrt (\<lambda>a b. di_of ?ch (node b) < di_of ?ch (node a)) ?up"
  proof (rule make_set_sorted)
    fix a b
    assume a: "a \<in> set (up_neighbors (?ch ! v))" and b: "b \<in> set (up_neighbors (?ch ! v))"
      and ne: "node a \<noteq> node b"
    from sc_good_distinct [OF h good [OF a] good [OF b] ne] di [OF a] di [OF b]
    show "di_of ?ch (node a) \<noteq> di_of ?ch (node b)" by simp
  qed
  then have "sorted_wrt (\<lambda>a b. sc_good g ci closest (node a) (node b)) ?up"
  proof (rule sorted_wrt_mono_rel [rotated])
    fix a b
    assume a: "a \<in> set ?up" and b: "b \<in> set ?up"
      and lt: "di_of ?ch (node b) < di_of ?ch (node a)"
    from a b sub have a': "a \<in> set (up_neighbors (?ch ! v))" and b': "b \<in> set (up_neighbors (?ch ! v))"
      by auto
    from lt di [OF a'] di [OF b'] have "ci_di ci (node b) < ci_di ci (node a)" by simp
    from sc_good_pair [OF h good [OF a'] good [OF b'] this]
    show "sc_good g ci closest (node a) (node b)" .
  qed
  from sc_outer_loop_inv [OF o _ this] inv0 have "sc_inv g ci closest (sc_ch st1)" by simp
  from sc_down_loop_inv [OF d this] have "sc_inv g ci closest ch2" .
  with Cons.IH [OF r] show ?case by simp
qed

lemma sc_labels_inv:
  assumes "sc_labels vs st = Some st'" and "sc_inv g ci closest (sc_ch st)"
  shows "sc_inv g ci closest (sc_ch st')"
  using assms
proof (induction vs arbitrary: st)
  case Nil
  then show ?case by simp
next
  case (Cons v vs)
  let ?ch = "sc_ch st"
  let ?chs = "?ch[v := (?ch ! v)\<lparr>down_neighbors := sort_by (<) (down_neighbors (?ch ! v))\<rparr>]"
  from Cons.prems(1) have v: "v < length ?ch" and "\<exists>ci'. sc_labels vs \<lparr>sc_ch = ?chs, sc_ci = ci'\<rparr> = Some st'"
    by (auto simp: bind_eq_Some_conv nth_opt_def split: if_splits)
  then obtain ci' where r: "sc_labels vs \<lparr>sc_ch = ?chs, sc_ci = ci'\<rparr> = Some st'" by blast
  have "sc_inv g ci closest ?chs"
    by (rule sc_inv_update [OF Cons.prems(2) v]) simp_all
  with Cons.IH [OF r] show ?case by simp
qed


lemma ci_di_update:
  assumes "v < length ci" and "ci_dist_index cv = ci_dist_index (ci ! v)"
    and "ci_cut_level cv = ci_cut_level (ci ! v)"
  shows "ci_di (ci[v := cv]) x = ci_di ci x"
  using assms by (cases "x = v") (simp_all add: ci_di_def)

lemma sc_init_step:
  assumes "sc_init_loop closest (v # vs) st bu = Some r"
  obtains st1 bu1 where "sc_init_loop closest vs st1 bu1 = Some r"
    and "v < length (sc_ch st)"
    and "length (sc_ch st1) = length (sc_ch st)"
    and "\<And>x. up_neighbors (sc_ch st1 ! x) = up_neighbors (sc_ch st ! x)"
    and "\<And>x. ci_di (sc_ci st1) x = ci_di (sc_ci st) x"
    and "set bu1 = set bu \<union> (if node (closest ! v) = v then {v} else {})"
    and "\<And>x. x \<noteq> v \<Longrightarrow> ch_dist_index (sc_ch st1 ! x) = ch_dist_index (sc_ch st ! x)"
    and "node (closest ! v) = v \<Longrightarrow> ch_dist_index (sc_ch st1 ! v) = ci_di (sc_ci st) v"
proof (cases "node (closest ! v) = v")
  case True
  let ?cv = "sc_ci st ! v"
  let ?di = "ci_dist_index ?cv ! ci_cut_level ?cv - 1"
  let ?st1 = "\<lparr>sc_ch = (sc_ch st)[v := (sc_ch st ! v)\<lparr>ch_dist_index := ?di\<rparr>],
          sc_ci = (sc_ci st)[v := ?cv\<lparr>ci_distances := vec_resize (unat ?di) infinity (ci_distances ?cv),
                                     ci_paths := vec_resize (unat ?di) 0 (ci_paths ?cv)\<rparr>]\<rparr>"
  from assms True have r: "sc_init_loop closest vs ?st1 (bu @ [v]) = Some r"
    and v: "v < length (sc_ch st)" and c: "v < length (sc_ci st)"
    by (auto simp: bind_eq_Some_conv nth_opt_def Let_def split: if_splits)
  show ?thesis
  proof (rule that [OF r v])
    show "up_neighbors (sc_ch ?st1 ! x) = up_neighbors (sc_ch st ! x)" for x
      using v by (cases "x = v") simp_all
    show "ci_di (sc_ci ?st1) x = ci_di (sc_ci st) x" for x
      using ci_di_update [OF c, of _ x] by simp
    show "ch_dist_index (sc_ch ?st1 ! v) = ci_di (sc_ci st) v"
      using v by (simp add: ci_di_def)
  qed (use True in simp_all)
next
  case False
  let ?st1 = "st\<lparr>sc_ch := (sc_ch st)[v := (sc_ch st ! v)\<lparr>ch_dist_index := 65535\<rparr>]\<rparr>"
  from assms False have r: "sc_init_loop closest vs ?st1 bu = Some r"
    and v: "v < length (sc_ch st)"
    by (auto simp: bind_eq_Some_conv nth_opt_def Let_def split: if_splits)
  show ?thesis
  proof (rule that [OF r v])
    show "up_neighbors (sc_ch ?st1 ! x) = up_neighbors (sc_ch st ! x)" for x
      using v by (cases "x = v") simp_all
  qed (use False in simp_all)
qed

lemma sc_init_loop_frame:
  assumes "sc_init_loop closest vs st bu = Some (st', bu')"
  shows "length (sc_ch st') = length (sc_ch st)
     \<and> (\<forall>x. up_neighbors (sc_ch st' ! x) = up_neighbors (sc_ch st ! x))
     \<and> (\<forall>x. ci_di (sc_ci st') x = ci_di (sc_ci st) x)
     \<and> set bu' = set bu \<union> {v \<in> set vs. node (closest ! v) = v}
     \<and> (\<forall>x. x \<notin> set vs \<longrightarrow> ch_dist_index (sc_ch st' ! x) = ch_dist_index (sc_ch st ! x))"
  using assms
proof (induction vs arbitrary: st bu)
  case Nil
  then show ?case by simp
next
  case (Cons v vs)
  from Cons.prems obtain st1 bu1 where r: "sc_init_loop closest vs st1 bu1 = Some (st', bu')"
    and p: "length (sc_ch st1) = length (sc_ch st)"
      "\<And>x. up_neighbors (sc_ch st1 ! x) = up_neighbors (sc_ch st ! x)"
      "\<And>x. ci_di (sc_ci st1) x = ci_di (sc_ci st) x"
      "set bu1 = set bu \<union> (if node (closest ! v) = v then {v} else {})"
      "\<And>x. x \<noteq> v \<Longrightarrow> ch_dist_index (sc_ch st1 ! x) = ch_dist_index (sc_ch st ! x)"
    by (rule sc_init_step) blast
  from Cons.IH [OF r] have ih: "length (sc_ch st') = length (sc_ch st1)"
      "\<And>x. up_neighbors (sc_ch st' ! x) = up_neighbors (sc_ch st1 ! x)"
      "\<And>x. ci_di (sc_ci st') x = ci_di (sc_ci st1) x"
      "set bu' = set bu1 \<union> {v \<in> set vs. node (closest ! v) = v}"
      "\<And>x. x \<notin> set vs \<Longrightarrow> ch_dist_index (sc_ch st' ! x) = ch_dist_index (sc_ch st1 ! x)"
    by simp_all
  have "set bu' = set bu \<union> {x \<in> set (v # vs). node (closest ! x) = x}"
    unfolding ih(4) p(4) by auto
  moreover have "ch_dist_index (sc_ch st' ! x) = ch_dist_index (sc_ch st ! x)"
    if "x \<notin> set (v # vs)" for x
    using that ih(5) [of x] p(5) [of x] by simp
  ultimately show ?case using ih(1-3) p(1-3) by simp
qed

lemma sc_init_loop_di:
  assumes "sc_init_loop closest vs st bu = Some (st', bu')" and "v \<in> set vs"
  shows "v < length (sc_ch st)
     \<and> (node (closest ! v) = v \<longrightarrow> ch_dist_index (sc_ch st' ! v) = ci_di (sc_ci st) v)"
  using assms
proof (induction vs arbitrary: st bu)
  case Nil
  then show ?case by simp
next
  case (Cons w vs)
  from Cons.prems(1) obtain st1 bu1 where r: "sc_init_loop closest vs st1 bu1 = Some (st', bu')"
    and w: "w < length (sc_ch st)"
    and p: "length (sc_ch st1) = length (sc_ch st)"
      "\<And>x. ci_di (sc_ci st1) x = ci_di (sc_ci st) x"
      "node (closest ! w) = w \<Longrightarrow> ch_dist_index (sc_ch st1 ! w) = ci_di (sc_ci st) w"
    by (rule sc_init_step) blast
  show ?case
  proof (cases "v \<in> set vs")
    case True
    from Cons.IH [OF r True] p show ?thesis by simp
  next
    case False
    with Cons.prems(2) have vw: "v = w" by simp
    from sc_init_loop_frame [OF r] False
    have "ch_dist_index (sc_ch st' ! v) = ch_dist_index (sc_ch st1 ! v)" by simp
    with p(3) w vw show ?thesis by simp
  qed
qed

lemma sc_edges_loop_inv:
  assumes h: "hierarchy_ok g ci closest" and v: "core g closest v"
  shows "sc_edges_loop closest v ns st = Some st' \<Longrightarrow> set ns \<subseteq> set (neighbors (node_data g ! v))
    \<Longrightarrow> sc_inv g ci closest (sc_ch st) \<Longrightarrow> sc_inv g ci closest (sc_ch st')"
proof (induction ns arbitrary: st)
  case Nil
  then show ?case by simp
next
  case (Cons n ns)
  let ?ch = "sc_ch st"
  note inv = Cons.prems(3)
  from Cons.prems(2) have n: "n \<in> set (neighbors (node_data g ! v))"
    and ns: "set ns \<subseteq> set (neighbors (node_data g ! v))" by simp_all
  from v have nv: "v \<in> set (nodes g)" by (simp add: core_def)
  with inv v have dv: "ch_dist_index (?ch ! v) = ci_di ci v" and lv: "v < length ?ch"
    by (simp_all add: sc_inv_def)
  have push: "sc_inv g ci closest (?ch[v := (?ch ! v)\<lparr>up_neighbors :=
        up_neighbors (?ch ! v) @ [\<lparr>node = node n, distance = d, path_count = c\<rparr>]\<rparr>])"
    if c: "node (closest ! node n) = node n"
      and lt: "ch_dist_index (?ch ! node n) < ch_dist_index (?ch ! v)" for d c
  proof -
    from h nv v n c have nn: "node n \<in> set (nodes g)" unfolding hierarchy_ok_def by blast
    with c have "core g closest (node n)" by (simp add: core_def)
    with inv nn have "ch_dist_index (?ch ! node n) = ci_di ci (node n)" by (simp add: sc_inv_def)
    with lt dv have "ci_di ci (node n) < ci_di ci v" by simp
    from sc_good_edge [OF h v n c this] have "sc_good g ci closest v (node n)" .
    then show ?thesis by (intro sc_inv_update [OF inv lv]) auto
  qed
  from Cons.prems(1) have "\<exists>st1. sc_edges_loop closest v ns st1 = Some st' \<and> sc_inv g ci closest (sc_ch st1)"
    using inv push
    by (auto simp: bind_eq_Some_conv nth_opt_def Let_def split: if_splits)
  then obtain st1 where "sc_edges_loop closest v ns st1 = Some st'" "sc_inv g ci closest (sc_ch st1)"
    by blast
  from Cons.IH [OF this(1) ns this(2)] show ?case .
qed

lemma sc_edges_inv:
  assumes h: "hierarchy_ok g ci closest"
  shows "sc_edges g closest vs st = Some st' \<Longrightarrow> (\<And>v. v \<in> set vs \<Longrightarrow> core g closest v)
    \<Longrightarrow> sc_inv g ci closest (sc_ch st) \<Longrightarrow> sc_inv g ci closest (sc_ch st')"
proof (induction vs arbitrary: st)
  case Nil
  then show ?case by simp
next
  case (Cons v vs)
  from Cons.prems(1) obtain st1
    where e: "sc_edges_loop closest v (neighbors (node_data g ! v)) st = Some st1"
      and r: "sc_edges g closest vs st1 = Some st'"
    by (auto simp: bind_eq_Some_conv nth_opt_def split: if_splits)
  from Cons.prems(2) have v: "core g closest v" by simp
  from sc_edges_loop_inv [OF h v e _ Cons.prems(3)] have "sc_inv g ci closest (sc_ch st1)" by simp
  from Cons.IH [OF r _ this] Cons.prems(2) show ?case by simp
qed

lemma create_sc_graph_inv:
  assumes h: "hierarchy_ok g ci closest"
    and r: "create_sc_graph g [] ci closest = Some st"
  shows "sc_inv g ci closest (sc_ch st)"
proof -
  let ?s = "\<lparr>sc_ch = vec_resize (length (nodes g) + 1) default_CHNode [], sc_ci = ci\<rparr>"
  from r obtain st0 bu st1 st2
    where i: "sc_init_loop closest (nodes g) ?s [] = Some (st0, bu)"
      and e: "sc_edges g closest bu st0 = Some st1"
      and s: "sc_shortcuts (sort_by (di_order (sc_ch st1)) bu) st1 = Some st2"
      and l: "sc_labels (rev (sort_by (di_order (sc_ch st1)) bu)) st2 = Some st"
    by (auto simp: create_sc_graph_def bind_eq_Some_conv Let_def)
  from sc_init_loop_frame [OF i]
  have len: "length (sc_ch st0) = length (sc_ch ?s)"
    and up: "\<And>x. up_neighbors (sc_ch st0 ! x) = up_neighbors (sc_ch ?s ! x)"
    and bu: "set bu = {v \<in> set (nodes g). node (closest ! v) = v}"
    by simp_all
  have inv0: "sc_inv g ci closest (sc_ch st0)"
  proof -
    have "x < length (sc_ch st0) \<and> (core g closest x \<longrightarrow> ch_dist_index (sc_ch st0 ! x) = ci_di ci x)"
      if "x \<in> set (nodes g)" for x
      using sc_init_loop_di [OF i that] len by (simp add: core_def)
    moreover have "up_neighbors (sc_ch st0 ! v) = []" if "v < length (sc_ch st0)" for v
    proof -
      have "sc_ch ?s = replicate (length (nodes g) + 1) default_CHNode"
        by (simp add: vec_resize_def)
      moreover from that len have "v < length (nodes g) + 1" by (simp add: vec_resize_def)
      ultimately have "sc_ch ?s ! v = default_CHNode" by (metis nth_replicate)
      with up [of v] show ?thesis by (simp add: default_CHNode_def)
    qed
    ultimately show ?thesis by (simp add: sc_inv_def)
  qed
  from bu have c: "\<And>v. v \<in> set bu \<Longrightarrow> core g closest v" by (simp add: core_def)
  from sc_edges_inv [OF h e c inv0] have "sc_inv g ci closest (sc_ch st1)" .
  from sc_shortcuts_inv [OF h s this] have "sc_inv g ci closest (sc_ch st2)" .
  from sc_labels_inv [OF l this] show ?thesis .
qed


lemma up_order_shape:
  assumes "ch_shape ch' = ch_shape ch"
  shows "up_order ch' = up_order ch"
proof -
  have aux: "up_order a" if s: "ch_shape a = ch_shape b" and u: "up_order b" for a b
  proof -
    from s have len: "length a = length b" unfolding ch_shape_def by (rule map_eq_imp_length_eq)
    have nth: "ch_dist_index (a ! v) = ch_dist_index (b ! v)
        \<and> map node (up_neighbors (a ! v)) = map node (up_neighbors (b ! v))" if "v < length b" for v
    proof -
      from s have "ch_shape a ! v = ch_shape b ! v" by simp
      with that len show ?thesis by (simp add: ch_shape_def)
    qed
    have "node n < length a \<and> ch_dist_index (a ! node n) < ch_dist_index nv"
      if nv: "nv \<in> set a" and n: "n \<in> set (up_neighbors nv)" for nv n
    proof -
      from nv len obtain v where v: "v < length b" and nv': "nv = a ! v"
        by (auto simp: in_set_conv_nth)
      from n nv' have "node n \<in> set (map node (up_neighbors (a ! v)))" by simp
      with nth [OF v] have "node n \<in> set (map node (up_neighbors (b ! v)))" by simp
      then obtain m where m: "m \<in> set (up_neighbors (b ! v))" and nm: "node m = node n" by auto
      from v have "b ! v \<in> set b" by simp
      with u m have 1: "node m < length b" and 2: "ch_dist_index (b ! node m) < ch_dist_index (b ! v)"
        by (auto simp: up_order_def list_all_iff)
      from nth [OF 1] nth [OF v] 1 2 nm nv' len show ?thesis by simp
    qed
    then show ?thesis by (simp add: up_order_def list_all_iff)
  qed
  from aux [OF assms] aux [OF assms [symmetric]] show ?thesis by blast
qed

lemma update_first_nodes: "map node (update_first w d c ns) = map node ns"
  by (induction ns) simp_all

lemma set_UpNeighbor_shape: "ch_shape (set_UpNeighbor ch v w d c) = ch_shape ch"
proof (cases "v < length ch")
  case True
  then show ?thesis
    by (simp add: ch_shape_def set_UpNeighbor_def map_update update_first_nodes list_update_same_conv)
next
  case False
  then show ?thesis by (simp add: set_UpNeighbor_def list_update_beyond)
qed

lemma gs_dec_loop_shape:
  "gs_dec_loop fuel ch q C = Some (ch', C') \<Longrightarrow> ch_shape ch' = ch_shape ch"
proof (induction fuel arbitrary: ch q C)
  case 0
  then show ?case by (cases q) simp_all
next
  case (Suc fuel)
  show ?case
  proof (cases q)
    case Nil
    with Suc.prems show ?thesis by simp
  next
    case (Cons e q')
    with Suc.prems show ?thesis
      by (auto simp: bind_eq_Some_conv Let_def set_UpNeighbor_shape split: if_splits
          dest!: Suc.IH)
  qed
qed

lemma GS_Dec_shape:
  assumes "GS_Dec fuel ch updates C = Some (ch', C')"
  shows "ch_shape ch' = ch_shape ch"
  using assms by (auto simp: GS_Dec_def bind_eq_Some_conv dest: gs_dec_loop_shape)

lemma gs_inc_merge_shape:
  "gs_inc_merge v w as bs ch = Some ch' \<Longrightarrow> ch_shape ch' = ch_shape ch"
  by (induction v w as bs ch rule: gs_inc_merge.induct)
    (auto simp: bind_eq_Some_conv Let_def set_UpNeighbor_shape split: if_splits)

lemma gs_inc_loop_shape:
  "gs_inc_loop fuel g ch q C = Some (ch', C') \<Longrightarrow> ch_shape ch' = ch_shape ch"
proof (induction fuel arbitrary: ch q C)
  case 0
  then show ?case by (cases q) simp_all
next
  case (Suc fuel)
  show ?case
  proof (cases q)
    case Nil
    with Suc.prems show ?thesis by simp
  next
    case (Cons e q')
    with Suc.prems show ?thesis
      by (auto simp: bind_eq_Some_conv Let_def set_UpNeighbor_shape split: if_splits
          dest!: Suc.IH gs_inc_merge_shape)
  qed
qed

lemma GS_Inc_shape:
  assumes "GS_Inc fuel g ch updates C = Some (ch', C')"
  shows "ch_shape ch' = ch_shape ch"
  using assms by (auto simp: GS_Inc_def bind_eq_Some_conv dest: gs_inc_loop_shape)

lemma DCL_Dec_shape:
  assumes "DCL_Dec fuel ch idx updates = Some (ch', idx')"
  shows "ch_shape ch' = ch_shape ch"
  using assms by (auto simp: DCL_Dec_def bind_eq_Some_conv dest: GS_Dec_shape split: if_splits)

lemma DCL_Inc_shape:
  assumes "DCL_Inc fuel g ch idx updates = Some (ch', idx')"
  shows "ch_shape ch' = ch_shape ch"
  using assms by (auto simp: DCL_Inc_def bind_eq_Some_conv dest: GS_Inc_shape)

lemma up_order_acyclic:
  assumes "up_order ch"
  shows "acyclic (up_edges ch)"
proof -
  let ?f = "\<lambda>v. unat (ch_dist_index (ch ! v))"
  have "up_edges ch \<subseteq> (measure ?f)\<inverse>"
  proof
    fix e
    assume "e \<in> up_edges ch"
    then obtain v n where e: "e = (v, node n)" and v: "v < length ch"
      and n: "n \<in> set (up_neighbors (ch ! v))"
      by (auto simp: up_edges_def)
    from v have "ch ! v \<in> set ch" by simp
    with assms n have "ch_dist_index (ch ! node n) < ch_dist_index (ch ! v)"
      by (auto simp: up_order_def list_all_iff)
    then show "e \<in> (measure ?f)\<inverse>" by (simp add: e word_less_nat_alt)
  qed
  moreover have "acyclic ((measure ?f)\<inverse>)"
    by (simp add: wf_acyclic)
  ultimately show ?thesis by (rule acyclic_subset [rotated])
qed

lemma create_sc_graph_diamond:
  "create_sc_graph diamond_g [] diamond_ci diamond_closest = Some diamond_sc"
  by code_simp

lemma hierarchy_ok_diamond: "hierarchy_ok diamond_g diamond_ci diamond_closest"
  by code_simp

text \<open>
  Claim C6. When the labels given to \<^verbatim>\<open>create_sc_graph\<close> form a cut hierarchy of the graph
  (what \<^verbatim>\<open>create_cut_index\<close> is there to produce) and the shortcut graph starts empty, as
  in \<^verbatim>\<open>index.cpp\<close>, then in the shortcut graph that \<^verbatim>\<open>create_sc_graph\<close> returns every
  up-neighbour of every vertex is a vertex of the graph with a strictly smaller
  \<^verbatim>\<open>dist_index\<close>. \<^verbatim>\<open>GS_Dec\<close>, \<^verbatim>\<open>GS_Inc\<close>, \<^verbatim>\<open>DCL_Dec\<close> and \<^verbatim>\<open>DCL_Inc\<close> keep this order whenever
  they return, for they change distances and path counts of up-neighbours only. A
  shortcut graph with this order has no cycle of up-edges.
\<close>

theorem up_order_maintained:
  shows "(hierarchy_ok g ci closest \<longrightarrow> create_sc_graph g [] ci closest = Some st
            \<longrightarrow> up_order (sc_ch st))
     \<and> (up_order ch \<longrightarrow>
          (GS_Dec fuel ch updates C = Some (ch1, C1) \<longrightarrow> up_order ch1)
        \<and> (GS_Inc fuel g' ch updates C = Some (ch2, C2) \<longrightarrow> up_order ch2)
        \<and> (DCL_Dec fuel ch idx updates = Some (ch3, idx3) \<longrightarrow> up_order ch3)
        \<and> (DCL_Inc fuel g' ch idx updates = Some (ch4, idx4) \<longrightarrow> up_order ch4)
        \<and> acyclic (up_edges ch))"
proof (intro conjI impI)
  assume "hierarchy_ok g ci closest" and "create_sc_graph g [] ci closest = Some st"
  then have "sc_inv g ci closest (sc_ch st)" by (rule create_sc_graph_inv)
  then show "up_order (sc_ch st)" by (rule sc_inv_up_order)
next
  assume "up_order ch" and "GS_Dec fuel ch updates C = Some (ch1, C1)"
  with up_order_shape [OF GS_Dec_shape] show "up_order ch1" by blast
next
  assume "up_order ch" and "GS_Inc fuel g' ch updates C = Some (ch2, C2)"
  with up_order_shape [OF GS_Inc_shape] show "up_order ch2" by blast
next
  assume "up_order ch" and "DCL_Dec fuel ch idx updates = Some (ch3, idx3)"
  with up_order_shape [OF DCL_Dec_shape] show "up_order ch3" by blast
next
  assume "up_order ch" and "DCL_Inc fuel g' ch idx updates = Some (ch4, idx4)"
  with up_order_shape [OF DCL_Inc_shape] show "up_order ch4" by blast
next
  assume "up_order ch"
  then show "acyclic (up_edges ch)" by (rule up_order_acyclic)
qed

theorem up_order_maintained_witness:
  "create_sc_graph diamond_g [] diamond_ci diamond_closest = Some diamond_sc
   \<and> up_order diamond_ch
   \<and> map_option (up_order \<circ> fst) (GS_Dec 10 diamond_ch diamond_dec []) = Some True
   \<and> map_option (up_order \<circ> fst) (GS_Inc 10 diamond_g_inc diamond_ch diamond_inc []) = Some True
   \<and> map_option (up_order \<circ> fst) (DCL_Dec 10 diamond_ch diamond_index diamond_dec) = Some True
   \<and> map_option (up_order \<circ> fst) (DCL_Inc 10 diamond_g_inc diamond_ch diamond_index diamond_inc)
       = Some True
   \<and> acyclic (up_edges diamond_ch)"
proof -
  note r = create_sc_graph_diamond
  have c: "sc_ch diamond_sc = diamond_ch" by (simp add: diamond_sc_def)
  have "GS_Dec 10 diamond_ch diamond_dec [] \<noteq> None" by code_simp
  then obtain ch1 C1 where g1: "GS_Dec 10 diamond_ch diamond_dec [] = Some (ch1, C1)" by auto
  have "GS_Inc 10 diamond_g_inc diamond_ch diamond_inc [] \<noteq> None" by code_simp
  then obtain ch2 C2 where g2: "GS_Inc 10 diamond_g_inc diamond_ch diamond_inc [] = Some (ch2, C2)"
    by auto
  have "DCL_Dec 10 diamond_ch diamond_index diamond_dec \<noteq> None" by code_simp
  then obtain ch3 idx3 where g3: "DCL_Dec 10 diamond_ch diamond_index diamond_dec = Some (ch3, idx3)"
    by auto
  have "DCL_Inc 10 diamond_g_inc diamond_ch diamond_index diamond_inc \<noteq> None" by code_simp
  then obtain ch4 idx4
    where g4: "DCL_Inc 10 diamond_g_inc diamond_ch diamond_index diamond_inc = Some (ch4, idx4)"
    by auto
  from up_order_maintained [where g = diamond_g and ci = diamond_ci and closest = diamond_closest
      and st = diamond_sc and ch = diamond_ch and fuel = 10 and updates = diamond_dec and C = "[]"
      and ?ch1.0 = ch1 and ?C1.0 = C1 and ?ch3.0 = ch3 and idx = diamond_index and ?idx3.0 = idx3]
    hierarchy_ok_diamond r c g1 g3
  have d: "up_order diamond_ch" "up_order ch1" "up_order ch3" "acyclic (up_edges diamond_ch)"
    by simp_all
  from up_order_maintained [where ch = diamond_ch and fuel = 10 and updates = diamond_inc
      and C = "[]" and g' = diamond_g_inc and ?ch2.0 = ch2 and ?C2.0 = C2 and ?ch4.0 = ch4
      and idx = diamond_index and ?idx4.0 = idx4]
    d(1) g2 g4
  have i: "up_order ch2" "up_order ch4" by simp_all
  from r d i g1 g2 g3 g4 show ?thesis by simp
qed

section \<open>Where the build and the maintenance go wrong\<close>

subsection \<open>Graphs with an isolated vertex below another vertex\<close>

text \<open>
  \<^verbatim>\<open>create_sc_graph\<close> gives \<open>ch.nodes\<close> one entry more than the graph has vertices and then
  indexes it by vertex id. \<^verbatim>\<open>read_graph\<close> has removed the isolated vertices from the
  graph but they keep their ids, so a vertex whose id exceeds the number of vertices
  left is outside \<open>ch.nodes\<close>: the first loop writes past the end of the vector.
\<close>

lemma length_vec_resize: "length (vec_resize n x xs) = n"
  by (simp add: vec_resize_def min_def)

lemma create_sc_graph_gap:
  assumes "v \<in> set (nodes g)" and "length (nodes g) < v"
  shows "create_sc_graph g ch ci closest = None" and "create_sc_graph_mt g ch ci closest = None"
proof -
  let ?s = "\<lparr>sc_ch = vec_resize (length (nodes g) + 1) default_CHNode ch, sc_ci = ci\<rparr>"
  have i: "sc_init_loop closest (nodes g) ?s [] = None"
  proof (cases "sc_init_loop closest (nodes g) ?s []")
    case None
    then show ?thesis .
  next
    case (Some r)
    then have "sc_init_loop closest (nodes g) ?s [] = Some (fst r, snd r)" by simp
    from sc_init_loop_di [OF this assms(1)] have "v < length (nodes g) + 1"
      by (simp add: length_vec_resize)
    with assms(2) show ?thesis by simp
  qed
  from i show "create_sc_graph g ch ci closest = None" by (simp add: create_sc_graph_def)
  from i show "create_sc_graph_mt g ch ci closest = None" by (simp add: create_sc_graph_mt_def)
qed

text \<open>
  Against claim C1. For the input \<open>gap_input\<close> (three vertices, one edge between 1 and
  3), \<^verbatim>\<open>read_graph\<close> returns the graph with the vertices 1 and 3, and
  \<^verbatim>\<open>create_sc_graph\<close>, in either build and whatever labels \<^verbatim>\<open>create_cut_index\<close> has
  produced, writes \<open>ch.nodes[3]\<close> in a vector of three entries: no index is built for
  the pair \<open>(1, 3)\<close>, whose distance is 5.
\<close>

theorem create_sc_graph_gap_input:
  "read_graph cfg_debug empty_graph gap_input = Some gap_graph
   \<and> nodes gap_graph = [1, 3]
   \<and> length (vec_resize (length (nodes gap_graph) + 1) default_CHNode ch) = 3
   \<and> create_sc_graph gap_graph ch ci closest = None
   \<and> create_sc_graph_mt gap_graph ch ci closest = None"
proof -
  have r: "read_graph cfg_debug empty_graph gap_input = Some gap_graph"
    by code_simp
  have n: "nodes gap_graph = [1, 3]" by (simp add: gap_graph_def)
  then have "3 \<in> set (nodes gap_graph)" "length (nodes gap_graph) < 3" by simp_all
  from create_sc_graph_gap [OF this] r n show ?thesis by (simp add: length_vec_resize)
qed

text \<open>
  Against claim C2, from the same defect. For the input \<open>cycle_input\<close> (a cycle on the
  vertices 2 to 5 of five, with two shortest paths between 2 and 4), \<^verbatim>\<open>create_sc_graph\<close>
  writes \<open>ch.nodes[5]\<close> in a vector of five entries.
\<close>

theorem create_sc_graph_cycle_input:
  "read_graph cfg_debug empty_graph cycle_input = Some cycle_graph
   \<and> nodes cycle_graph = [2, 3, 4, 5]
   \<and> length (vec_resize (length (nodes cycle_graph) + 1) default_CHNode ch) = 5
   \<and> create_sc_graph cycle_graph ch ci closest = None
   \<and> create_sc_graph_mt cycle_graph ch ci closest = None"
proof -
  have r: "read_graph cfg_debug empty_graph cycle_input = Some cycle_graph"
    by code_simp
  have n: "nodes cycle_graph = [2, 3, 4, 5]" by (simp add: cycle_graph_def)
  then have "5 \<in> set (nodes cycle_graph)" "length (nodes cycle_graph) < 5" by simp_all
  from create_sc_graph_gap [OF this] r n show ?thesis by (simp add: length_vec_resize)
qed

subsection \<open>GS_Inc on down-neighbours that are not sorted\<close>

text \<open>
  Against claim C3. \<^verbatim>\<open>GS_Inc\<close> finds the common down-neighbours of \<open>v\<close> and \<open>w\<close> by walking
  both lists as sorted lists, but only the variant of \<^verbatim>\<open>create_sc_graph\<close> without threads
  sorts them. In the build with threads the lists are in the order in which the third
  loop has processed the vertices. On the graph \<open>kite_g 10\<close> vertex 1 gets the
  down-neighbours \<open>[5, 3, 4, 2]\<close> and vertex 2 gets \<open>[3, 4]\<close>, and the index answers 10 for
  the pair \<open>(1, 2)\<close>. When the weight of the edge \<open>1 - 2\<close> is raised to 15, the distance
  becomes 12, along \<open>1 - 3 - 2\<close>. \<^verbatim>\<open>GS_Inc\<close> compares 3 and then 4 with 5, steps over both,
  and sees no common down-neighbour, so the shortcut from 2 to 1 gets the distance 15,
  and after \<^verbatim>\<open>DCL_Inc\<close> the query answers 15. The same happens when the vertices 3 and 4
  were processed in the other order. With the lists sorted the query answers 12.
\<close>

theorem DCL_Inc_unsorted_down_neighbors:
  "read_graph cfg_debug empty_graph kite_input = Some (kite_g 10)
   \<and> create_sc_graph_mt (kite_g 10) [] kite_ci kite_closest = Some kite_sc
   \<and> down_neighbors (sc_ch kite_sc ! 1) = [5, 3, 4, 2]
   \<and> down_neighbors (sc_ch kite_sc ! 2) = [3, 4]
   \<and> ContractionIndex_of cfg_debug (sc_ci kite_sc) kite_closest = Some kite_index
   \<and> get_distance cfg_debug kite_index 1 2 = Some 10
   \<and> weight_of (neighbors (node_data (kite_g 15) ! 1)) 3 = Some 6
   \<and> weight_of (neighbors (node_data (kite_g 15) ! 3)) 2 = Some 6
   \<and> map_option (\<lambda>r. get_distance cfg_debug (snd r) 1 2)
         (DCL_Inc 10 (kite_g 15) (sc_ch kite_sc) kite_index kite_inc) = Some (Some 15)
   \<and> map_option (\<lambda>r. get_distance cfg_debug (snd r) 1 2)
         (DCL_Inc 10 (kite_g 15) kite_ch_43 kite_index kite_inc) = Some (Some 15)
   \<and> map_option (\<lambda>r. get_distance cfg_debug (snd r) 1 2)
         (DCL_Inc 10 (kite_g 15)
            (map (\<lambda>n. n\<lparr>down_neighbors := sort_by (<) (down_neighbors n)\<rparr>) (sc_ch kite_sc))
            kite_index kite_inc) = Some (Some 12)"
proof -
  have 1: "read_graph cfg_debug empty_graph kite_input = Some (kite_g 10)"
    by code_simp
  have 2: "create_sc_graph_mt (kite_g 10) [] kite_ci kite_closest = Some kite_sc"
    by code_simp
  have 3: "down_neighbors (sc_ch kite_sc ! 1) = [5, 3, 4, 2]"
    "down_neighbors (sc_ch kite_sc ! 2) = [3, 4]"
    by (simp_all add: kite_sc_def kite_ch_def)
  have 4: "ContractionIndex_of cfg_debug (sc_ci kite_sc) kite_closest = Some kite_index"
    by (simp add: ContractionIndex_of_def kite_sc_def kite_closest_def kite_index_def
        cfg_debug_def nth_opt_def upt_rec [of _ 6] FlatCutIndex_of_def PBV_from_def empty_ci_def
        NO_NODE_def aligned_def is_consistent_def MAX_CUT_LEVEL_def)
  have 5: "get_distance cfg_debug kite_index 1 2 = Some 10"
    by code_simp
  have 6: "weight_of (neighbors (node_data (kite_g 15) ! 1)) 3 = Some 6"
    "weight_of (neighbors (node_data (kite_g 15) ! 3)) 2 = Some 6"
    by (simp_all add: kite_g_def)
  have 7: "map_option (\<lambda>r. get_distance cfg_debug (snd r) 1 2)
         (DCL_Inc 10 (kite_g 15) (sc_ch kite_sc) kite_index kite_inc) = Some (Some 15)"
    by code_simp
  have 8: "map_option (\<lambda>r. get_distance cfg_debug (snd r) 1 2)
         (DCL_Inc 10 (kite_g 15) kite_ch_43 kite_index kite_inc) = Some (Some 15)"
    by code_simp
  have 9: "map_option (\<lambda>r. get_distance cfg_debug (snd r) 1 2)
         (DCL_Inc 10 (kite_g 15)
            (map (\<lambda>n. n\<lparr>down_neighbors := sort_by (<) (down_neighbors n)\<rparr>) (sc_ch kite_sc))
            kite_index kite_inc) = Some (Some 12)"
    by code_simp
  from 1 2 3 4 5 6 7 8 9 show ?thesis by blast
qed

end
